theory Spec2Isabelle
  imports Complex_Main "HOL-Library.AList"
begin

section \<open>SearchBox: a one-file BM25 document search engine (app.py)\<close>

text \<open>
  The development embeds the indexer, the scorer, the ranker and the snippet
  extractor of \<^verbatim>\<open>app.py\<close>.

  \<^item> A Python \<^verbatim>\<open>str\<close> that holds text is a list of Unicode code points, \<open>ustring\<close>;
    \<open>asc\<close> writes one from its ASCII spelling. Paths and extensions are only compared
    and cut at the slash, and are \<open>string\<close>.
  \<^item> The class \<^verbatim>\<open>[A-Za-z0-9]\<close> of the tokenizer and \<^verbatim>\<open>str.lower\<close> on a token are ASCII
    tables. What Python takes from the Unicode character database, \<^verbatim>\<open>str.lower\<close> on
    a text, the regex class \<^verbatim>\<open>\w\<close> and the matching of a letter under \<^verbatim>\<open>(?i)\<close>, and
    the order in which a \<^verbatim>\<open>set\<close> yields its elements, are the fields of a \<open>runtime\<close>.
  \<^item> Python \<^verbatim>\<open>float\<close> is \<open>real\<close>: sums, quotients and \<^verbatim>\<open>math.log\<close> are the exact ones.
  \<^item> A \<^verbatim>\<open>dict\<close> is an association list in insertion order with distinct keys;
    \<^verbatim>\<open>d[k] = v\<close> is \<open>AList.update\<close>, \<^verbatim>\<open>d.get(k, 0)\<close> is \<open>get0\<close>, \<^verbatim>\<open>k in d\<close> is
    \<open>map_of d k \<noteq> None\<close>.
  \<^item> A call has one of three outcomes: it returns a value, it raises, or it never
    returns because it waits for \<^verbatim>\<open>self.lock\<close>.
\<close>

subsection \<open>Characters\<close>

type_synonym cp = nat

type_synonym ustring = "cp list"

text \<open>The text with the given ASCII spelling.\<close>

definition asc :: "string \<Rightarrow> ustring" where
  "asc s = map of_char s"

text \<open>The character class \<^verbatim>\<open>[A-Za-z0-9]\<close> of \<^verbatim>\<open>TOKEN_RE\<close>: digits, capitals, small letters.\<close>

definition is_alnum :: "cp \<Rightarrow> bool" where
  "is_alnum c \<longleftrightarrow> (48 \<le> c \<and> c \<le> 57) \<or> (65 \<le> c \<and> c \<le> 90) \<or> (97 \<le> c \<and> c \<le> 122)"

text \<open>The regex class \<^verbatim>\<open>\w\<close> below U+0080: letters, digits and the underscore.\<close>

definition is_word :: "cp \<Rightarrow> bool" where
  "is_word c \<longleftrightarrow> is_alnum c \<or> c = 95"

text \<open>
  \<^verbatim>\<open>str.lower()\<close> on a string of ASCII characters: the capitals \<^verbatim>\<open>A\<close> to \<^verbatim>\<open>Z\<close> move to
  \<^verbatim>\<open>a\<close> to \<^verbatim>\<open>z\<close> and nothing else changes. \<^verbatim>\<open>tokenize\<close> lowers the matches of
  \<^verbatim>\<open>[A-Za-z0-9]+\<close>, which are such strings.
\<close>

definition lower_char :: "cp \<Rightarrow> cp" where
  "lower_char c = (if 65 \<le> c \<and> c \<le> 90 then c + 32 else c)"

definition ascii_lower :: "ustring \<Rightarrow> ustring" where
  "ascii_lower s = map lower_char s"

text \<open>The code points for which \<^verbatim>\<open>str.isspace\<close> holds.\<close>

definition is_space :: "cp \<Rightarrow> bool" where
  "is_space c \<longleftrightarrow>
     (9 \<le> c \<and> c \<le> 13) \<or> (28 \<le> c \<and> c \<le> 32) \<or> c = 133 \<or> c = 160 \<or> c = 5760 \<or>
     (8192 \<le> c \<and> c \<le> 8202) \<or> c = 8232 \<or> c = 8233 \<or> c = 8239 \<or> c = 8287 \<or> c = 12288"

text \<open>
  What the snippet extractor takes from the Python runtime: \<^verbatim>\<open>text.lower()\<close>, which
  follows the Unicode case mappings and may change the number of code points; the
  class \<^verbatim>\<open>\w\<close> of a \<^verbatim>\<open>str\<close> pattern; whether a character of the text matches a literal
  character of a pattern compiled with \<^verbatim>\<open>(?i)\<close> (\<open>re_ci U p c\<close>: the text character \<open>c\<close>
  matches the pattern character \<open>p\<close>); and the order in which \<^verbatim>\<open>set(terms)\<close> yields its
  elements, which depends on the hash seed of the process.
\<close>

record runtime =
  str_lower :: "ustring \<Rightarrow> ustring"
  re_word :: "cp \<Rightarrow> bool"
  re_ci :: "cp \<Rightarrow> cp \<Rightarrow> bool"
  set_iter :: "ustring list \<Rightarrow> ustring list"

subsection \<open>Outcomes of a call\<close>

datatype py_error = IndexError | ZeroDivisionError

datatype 'a outcome = Returns 'a | Raises py_error | Blocks

subsection \<open>Dictionaries\<close>

text \<open>\<^verbatim>\<open>d.get(k, 0)\<close>.\<close>

definition get0 :: "(ustring \<times> nat) list \<Rightarrow> ustring \<Rightarrow> nat" where
  "get0 d k = (case map_of d k of None \<Rightarrow> 0 | Some v \<Rightarrow> v)"

text \<open>\<^verbatim>\<open>d[k] = d.get(k, 0) + 1\<close>.\<close>

definition bump :: "ustring \<Rightarrow> (ustring \<times> nat) list \<Rightarrow> (ustring \<times> nat) list" where
  "bump k d = AList.update k (get0 d k + 1) d"

subsection \<open>Tokenizer\<close>

text \<open>
  \<^verbatim>\<open>TOKEN_RE.findall(text)\<close> for \<^verbatim>\<open>[A-Za-z0-9]+\<close>: the maximal runs of letters and
  digits, left to right. \<open>cur\<close> is the run being read.
\<close>

fun findall :: "ustring \<Rightarrow> ustring \<Rightarrow> ustring list" where
  "findall cur [] = (if cur = [] then [] else [cur])"
| "findall cur (c # cs) =
     (if is_alnum c then findall (cur @ [c]) cs
      else (if cur = [] then [] else [cur]) @ findall [] cs)"

definition tokenize :: "ustring \<Rightarrow> ustring list" where
  "tokenize text = map ascii_lower (findall [] text)"

subsection \<open>The files under the root\<close>

text \<open>
  What the indexer sees of one file: its path, its extension as
  \<^verbatim>\<open>os.path.splitext(path)[1].lower()\<close> gives it, what \<^verbatim>\<open>open(...).read()\<close> yields
  under each encoding (\<open>None\<close>: the attempt raises) and what \<^verbatim>\<open>os.path.getmtime\<close>
  yields (\<open>None\<close>: it raises, as for a file that has vanished).
\<close>

datatype encoding = UTF8 | UTF8_SIG | LATIN1

record fsfile =
  path :: string
  ext :: string
  read_as :: "encoding \<Rightarrow> ustring option"
  getmtime :: "real option"

text \<open>
  The surroundings of a build and of a query: the files \<^verbatim>\<open>os.walk(root)\<close> lists, in
  its order, the value of \<^verbatim>\<open>time.time()\<close>, \<^verbatim>\<open>strip_html\<close>, which is three \<^verbatim>\<open>re.sub\<close>
  calls followed by \<^verbatim>\<open>html.unescape\<close> and is taken as a parameter, and the runtime.
\<close>

record env =
  files :: "fsfile list"
  clock :: real
  strip_html :: "ustring \<Rightarrow> ustring"
  py :: runtime

text \<open>
  \<^verbatim>\<open>read_text\<close>: the first encoding whose read does not raise; the empty string when
  every attempt raises.
\<close>

fun read_text_from :: "fsfile \<Rightarrow> encoding list \<Rightarrow> ustring" where
  "read_text_from f [] = []"
| "read_text_from f (enc # encs) =
     (case read_as f enc of Some s \<Rightarrow> s | None \<Rightarrow> read_text_from f encs)"

definition read_text :: "fsfile \<Rightarrow> ustring" where
  "read_text f = read_text_from f [UTF8, UTF8_SIG, LATIN1]"

definition file_to_text :: "env \<Rightarrow> fsfile \<Rightarrow> ustring" where
  "file_to_text e f =
     (let raw = read_text f
      in if ext f = ''.html'' \<or> ext f = ''.htm'' then strip_html e raw else raw)"

definition walk_docs :: "env \<Rightarrow> fsfile list" where
  "walk_docs e = filter (\<lambda>f. ext f \<in> set [''.md'', ''.txt'', ''.html'', ''.htm'']) (files e)"

text \<open>\<^verbatim>\<open>os.path.basename\<close>: what follows the last slash.\<close>

definition basename :: "string \<Rightarrow> string" where
  "basename p = rev (takeWhile (\<lambda>c. c \<noteq> CHR ''/'') (rev p))"

subsection \<open>The index\<close>

record doc =
  doc_id :: nat
  doc_path :: string
  doc_title :: string
  doc_text :: ustring
  doc_mtime :: real
  doc_len :: nat

text \<open>
  The attributes of a \<^verbatim>\<open>BM25Index\<close>. \<open>lock\<close> is the state of \<^verbatim>\<open>self.lock\<close>, a
  \<^verbatim>\<open>threading.Lock\<close>: \<open>True\<close> when it is held.
\<close>

record index =
  root_dir :: string
  lock :: bool
  docs :: "doc list"
  df :: "(ustring \<times> nat) list"
  tf :: "(ustring \<times> nat) list list"
  avgdl :: real
  idf :: "(ustring \<times> real) list"
  last_build :: real

text \<open>The loop \<^verbatim>\<open>for t in toks: freq[t] = freq.get(t, 0) + 1\<close> from the empty dictionary.\<close>

definition term_freqs :: "ustring list \<Rightarrow> (ustring \<times> nat) list" where
  "term_freqs toks = fold bump toks []"

text \<open>The loop \<^verbatim>\<open>for term in freq.keys(): self.df[term] = self.df.get(term, 0) + 1\<close>.\<close>

definition count_doc :: "(ustring \<times> nat) list \<Rightarrow> (ustring \<times> nat) list \<Rightarrow> (ustring \<times> nat) list" where
  "count_doc freq d = fold bump (map fst freq) d"

text \<open>
  The body of the \<^verbatim>\<open>try\<close> in \<^verbatim>\<open>reindex\<close> for the \<open>i\<close>-th path. The dictionary
  \<^verbatim>\<open>self.df\<close> is updated before the argument \<^verbatim>\<open>os.path.getmtime(path)\<close> of
  \<^verbatim>\<open>self.docs.append\<close> is evaluated; when that call raises, \<^verbatim>\<open>except Exception: continue\<close>
  goes to the next path and nothing is appended.
\<close>

definition index_file :: "env \<Rightarrow> nat \<times> fsfile \<Rightarrow> index \<Rightarrow> index" where
  "index_file e p idx =
     (let i = fst p; f = snd p;
          text = file_to_text e f;
          title = basename (path f);
          toks = tokenize text;
          freq = term_freqs toks;
          idx1 = idx\<lparr>df := count_doc freq (df idx)\<rparr>
      in case getmtime f of
           None \<Rightarrow> idx1
         | Some m \<Rightarrow>
             idx1\<lparr>docs := docs idx1 @
                      [\<lparr>doc_id = i, doc_path = path f, doc_title = title, doc_text = text,
                        doc_mtime = m, doc_len = length toks\<rparr>],
                   tf := tf idx1 @ [freq]\<rparr>)"

text \<open>The value \<^verbatim>\<open>math.log((N - df + 0.5) / (df + 0.5) + 1.0)\<close>.\<close>

definition bm25_idf :: "nat \<Rightarrow> nat \<Rightarrow> real" where
  "bm25_idf N d = ln ((real N - real d + 0.5) / (real d + 0.5) + 1)"

text \<open>The assignments at the head of \<^verbatim>\<open>reindex\<close>; \<^verbatim>\<open>time.time()\<close> is the clock.\<close>

definition reset :: "env \<Rightarrow> index \<Rightarrow> index" where
  "reset e idx = idx\<lparr>docs := [], df := [], tf := [], avgdl := 0, idf := [], last_build := clock e\<rparr>"

text \<open>The loop \<^verbatim>\<open>for i, path in enumerate(walk_docs(self.root))\<close>.\<close>

definition scan :: "env \<Rightarrow> index \<Rightarrow> index" where
  "scan e idx = fold (index_file e) (enumerate 0 (walk_docs e)) idx"

text \<open>\<^verbatim>\<open>N = len(self.docs) or 1\<close>.\<close>

definition doc_count :: "index \<Rightarrow> nat" where
  "doc_count idx = (if length (docs idx) = 0 then 1 else length (docs idx))"

text \<open>
  The statistics after the loop: \<^verbatim>\<open>self.avgdl = sum(d["len"] for d in self.docs)/N\<close>
  and the loop over \<^verbatim>\<open>self.df.items()\<close> that fills \<^verbatim>\<open>self.idf\<close>.
\<close>

definition statistics :: "index \<Rightarrow> index" where
  "statistics idx =
     (let N = doc_count idx;
          idx2 = idx\<lparr>avgdl := real (sum_list (map doc_len (docs idx))) / real N\<rparr>
      in idx2\<lparr>idf := fold (\<lambda>td m. AList.update (fst td) (bm25_idf N (snd td)) m)
                         (df idx2) (idf idx2)\<rparr>)"

text \<open>
  \<^verbatim>\<open>reindex\<close>. The whole body is under \<^verbatim>\<open>with self.lock\<close>: the call waits while
  the lock is held, takes it, and releases it on leaving the block. Nothing in the
  body raises outside the \<^verbatim>\<open>try\<close>.
\<close>

definition reindex :: "env \<Rightarrow> index \<Rightarrow> index outcome" where
  "reindex e idx =
     (if lock idx then Blocks
      else Returns ((statistics (scan e (reset e (idx\<lparr>lock := True\<rparr>))))\<lparr>lock := False\<rparr>))"

text \<open>
  \<^verbatim>\<open>BM25Index(root)\<close>: the root and a fresh lock, then \<^verbatim>\<open>reindex\<close>, which assigns
  every other attribute.
\<close>

definition fresh :: "string \<Rightarrow> index" where
  "fresh r = \<lparr>root_dir = r, lock = False, docs = [], df = [], tf = [], avgdl = 0, idf = [],
              last_build = 0\<rparr>"

definition init :: "env \<Rightarrow> string \<Rightarrow> index outcome" where
  "init e r = reindex e (fresh r)"

subsection \<open>Scorer\<close>

text \<open>\<^verbatim>\<open>xs[i]\<close> for a Python \<^verbatim>\<open>int\<close>: a negative index counts from the end.\<close>

definition py_nth :: "'a list \<Rightarrow> int \<Rightarrow> 'a option" where
  "py_nth xs i =
     (if 0 \<le> i \<and> i < int (length xs) then Some (xs ! nat i)
      else if i < 0 \<and> - int (length xs) \<le> i then Some (xs ! nat (int (length xs) + i))
      else None)"

text \<open>\<^verbatim>\<open>self.idf.get(t, 0.0)\<close>.\<close>

definition idf_get :: "index \<Rightarrow> ustring \<Rightarrow> real" where
  "idf_get idx t = (case map_of (idf idx) t of None \<Rightarrow> 0 | Some v \<Rightarrow> v)"

text \<open>
  The loop of \<^verbatim>\<open>score\<close> over \<^verbatim>\<open>q_terms\<close>, with the running \<^verbatim>\<open>score\<close>. A float
  division by zero raises \<^verbatim>\<open>ZeroDivisionError\<close>.
\<close>

fun score_terms ::
  "index \<Rightarrow> doc \<Rightarrow> (ustring \<times> nat) list \<Rightarrow> real \<Rightarrow> real \<Rightarrow> ustring list \<Rightarrow> real \<Rightarrow> real outcome"
where
  "score_terms idx d freq k1 b [] score = Returns score"
| "score_terms idx d freq k1 b (t # ts) score =
     (case map_of freq t of
        None \<Rightarrow> score_terms idx d freq k1 b ts score
      | Some n \<Rightarrow>
          (let w = idf_get idx t;
               dl = (if doc_len d = 0 then 1 else doc_len d)
           in if avgdl idx = 0 then Raises ZeroDivisionError
              else
                let denom = real n + k1 * (1 - b + b * real dl / avgdl idx)
                in if denom = 0 then Raises ZeroDivisionError
                   else score_terms idx d freq k1 b ts (score + w * (real n * (k1 + 1)) / denom)))"

text \<open>
  \<^verbatim>\<open>score(self, q_terms, doc_idx, k1, b)\<close>. The whole body is under
  \<^verbatim>\<open>with self.lock\<close>, and a \<^verbatim>\<open>threading.Lock\<close> is not reentrant: when the lock is
  held the call waits for a release.
\<close>

definition score :: "index \<Rightarrow> ustring list \<Rightarrow> int \<Rightarrow> real \<Rightarrow> real \<Rightarrow> real outcome" where
  "score idx q_terms doc_idx k1 b =
     (if lock idx then Blocks
      else
        case py_nth (docs idx) doc_idx of
          None \<Rightarrow> Raises IndexError
        | Some d \<Rightarrow>
            (case py_nth (tf idx) doc_idx of
               None \<Rightarrow> Raises IndexError
             | Some freq \<Rightarrow> score_terms idx d freq k1 b q_terms 0))"

text \<open>The default arguments \<^verbatim>\<open>k1=1.5, b=0.75\<close>.\<close>

definition score_default :: "index \<Rightarrow> ustring list \<Rightarrow> int \<Rightarrow> real outcome" where
  "score_default idx q_terms doc_idx = score idx q_terms doc_idx 1.5 0.75"

subsection \<open>Snippets\<close>

text \<open>\<^verbatim>\<open>s.find(t)\<close>: the least offset at which \<open>t\<close> occurs in \<open>s\<close>; \<open>None\<close> stands for \<open>-1\<close>.\<close>

fun find_sub :: "ustring \<Rightarrow> ustring \<Rightarrow> nat option" where
  "find_sub t [] = (if t = [] then Some 0 else None)"
| "find_sub t (c # cs) =
     (if take (length t) (c # cs) = t then Some 0 else map_option Suc (find_sub t cs))"

text \<open>
  \<^verbatim>\<open>first_hit_span\<close>. The offsets are those of \<^verbatim>\<open>low = text.lower()\<close>, in which the
  terms are looked up.
\<close>

definition first_hit_span :: "runtime \<Rightarrow> ustring \<Rightarrow> ustring list \<Rightarrow> nat" where
  "first_hit_span U text terms =
     (let low = str_lower U text;
          positions = List.map_filter (\<lambda>t. find_sub t low) terms
      in if positions = [] then 0 else min_list positions)"

text \<open>\<^verbatim>\<open>html.escape(chunk)\<close>, with its default \<^verbatim>\<open>quote=True\<close>.\<close>

definition escape_char :: "cp \<Rightarrow> ustring" where
  "escape_char c =
     (if c = 38 then asc ''&amp;''
      else if c = 60 then asc ''&lt;''
      else if c = 62 then asc ''&gt;''
      else if c = 34 then asc ''&quot;''
      else if c = 39 then asc ''&#x27;''
      else [c])"

definition html_escape :: "ustring \<Rightarrow> ustring" where
  "html_escape s = concat (map escape_char s)"

text \<open>
  The regex assertion \<^verbatim>\<open>\b\<close> between two neighbouring characters: exactly one of them
  is a word character. \<open>None\<close> is the missing neighbour at either end of the string.
\<close>

definition wordy :: "runtime \<Rightarrow> cp option \<Rightarrow> bool" where
  "wordy U x = (case x of None \<Rightarrow> False | Some c \<Rightarrow> re_word U c)"

definition boundary :: "runtime \<Rightarrow> cp option \<Rightarrow> cp option \<Rightarrow> bool" where
  "boundary U x y \<longleftrightarrow> wordy U x \<noteq> wordy U y"

text \<open>
  Whether \<^verbatim>\<open>(?i)\b(t)\b\<close> matches at the head of \<open>s\<close>, where \<open>prev\<close> is the character
  before \<open>s\<close>. \<^verbatim>\<open>re.escape\<close> makes the pattern match the characters of \<open>t\<close> one by one.
  The first \<^verbatim>\<open>\b\<close> stands between \<open>prev\<close> and the head of \<open>s\<close>, the second one after
  the last matched character; for the empty \<open>t\<close> both stand at the same place.
\<close>

definition matches_here :: "runtime \<Rightarrow> ustring \<Rightarrow> cp option \<Rightarrow> ustring \<Rightarrow> bool" where
  "matches_here U t prev s \<longleftrightarrow>
     length t \<le> length s \<and> list_all2 (re_ci U) t (take (length t) s) \<and>
     boundary U prev (if s = [] then None else Some (hd s)) \<and>
     boundary U (if t = [] then prev else Some (last (take (length t) s)))
       (if length t < length s then Some (s ! length t) else None)"

definition open_tag :: ustring where
  "open_tag = asc ''<mark>''"

definition close_tag :: ustring where
  "close_tag = asc ''</mark>''"

text \<open>
  \<^verbatim>\<open>re.sub(pattern, r"<mark>\1</mark>", s)\<close>: the matches are found left to right and
  do not overlap; the text between them is copied. After an empty match the search
  goes on one character further.
\<close>

function mark_from :: "runtime \<Rightarrow> ustring \<Rightarrow> cp option \<Rightarrow> ustring \<Rightarrow> ustring" where
  "mark_from U t prev [] = (if matches_here U t prev [] then open_tag @ close_tag else [])"
| "mark_from U t prev (c # cs) =
     (if matches_here U t prev (c # cs)
      then if t = [] then open_tag @ close_tag @ c # mark_from U t (Some c) cs
           else open_tag @ take (length t) (c # cs) @ close_tag @
                mark_from U t (Some (last (take (length t) (c # cs)))) (drop (length t) (c # cs))
      else c # mark_from U t (Some c) cs)"
  by pat_completeness auto
termination
  by (relation "measure (\<lambda>(U, t, prev, s). length s)") auto

definition mark_term :: "runtime \<Rightarrow> ustring \<Rightarrow> ustring \<Rightarrow> ustring" where
  "mark_term U t s = mark_from U t None s"

text \<open>
  \<^verbatim>\<open>sorted(set(terms), key=len, reverse=True)\<close>: the elements of the set, as the set
  yields them, sorted by descending length. The sort is stable, also with
  \<^verbatim>\<open>reverse=True\<close>.
\<close>

definition highlight_order :: "runtime \<Rightarrow> ustring list \<Rightarrow> ustring list" where
  "highlight_order U terms = sort_key (\<lambda>t. - int (length t)) (set_iter U terms)"

text \<open>The loop \<^verbatim>\<open>for t in sorted(...): esc = re.sub(...)\<close>.\<close>

definition highlight :: "runtime \<Rightarrow> ustring list \<Rightarrow> ustring \<Rightarrow> ustring" where
  "highlight U terms esc = fold (mark_term U) (highlight_order U terms) esc"

text \<open>The marker \<^verbatim>\<open>"\<dots>"\<close>, the code point U+2026.\<close>

definition ellipsis :: cp where
  "ellipsis = 8230"

text \<open>
  \<^verbatim>\<open>make_snippet(text, terms, width)\<close> for a width that is not negative. The slice
  \<^verbatim>\<open>text[start:end]\<close> is empty when \<open>end \<le> start\<close>.
\<close>

definition make_snippet :: "runtime \<Rightarrow> ustring \<Rightarrow> ustring list \<Rightarrow> nat \<Rightarrow> ustring" where
  "make_snippet U text terms width =
     (let pos = first_hit_span U text terms;
          start = pos - width div 4;
          end = min (length text) (start + width);
          chunk = take (end - start) (drop start text);
          esc = highlight U terms (html_escape chunk);
          prefix = (if start > 0 then [ellipsis] else []);
          suffix = (if end < length text then [ellipsis] else [])
      in prefix @ esc @ suffix)"

text \<open>The default argument \<^verbatim>\<open>width=220\<close>.\<close>

definition make_snippet_default :: "runtime \<Rightarrow> ustring \<Rightarrow> ustring list \<Rightarrow> ustring" where
  "make_snippet_default U text terms = make_snippet U text terms 220"

subsection \<open>Search\<close>

text \<open>
  The list \<^verbatim>\<open>[(p, os.path.getmtime(p)) for p in walk_docs(self.root)]\<close>; \<open>None\<close> when a
  \<^verbatim>\<open>getmtime\<close> raises.
\<close>

fun mtimes :: "fsfile list \<Rightarrow> (string \<times> real) list option" where
  "mtimes [] = Some []"
| "mtimes (f # fs) =
     (case getmtime f of
        None \<Rightarrow> None
      | Some m \<Rightarrow> map_option (\<lambda>r. (path f, m) # r) (mtimes fs))"

text \<open>
  \<^verbatim>\<open>maybe_reindex\<close>: under the lock, compare the set of (path, mtime) pairs on disk
  (empty when the scan raised) with the set recorded in the documents; after the lock
  is released, rebuild when they differ.
\<close>

definition maybe_reindex :: "env \<Rightarrow> index \<Rightarrow> index outcome" where
  "maybe_reindex e idx =
     (if lock idx then Blocks
      else
        let snapshot = (case mtimes (walk_docs e) of None \<Rightarrow> [] | Some r \<Rightarrow> r);
            have = map (\<lambda>d. (doc_path d, doc_mtime d)) (docs idx)
        in if set snapshot \<noteq> set have then reindex e idx else Returns idx)"

text \<open>
  The loop \<^verbatim>\<open>for i, d in enumerate(self.docs)\<close> of \<^verbatim>\<open>search\<close>, which runs while
  \<^verbatim>\<open>search\<close> holds the lock, so the index it passes to \<^verbatim>\<open>self.score\<close> is a locked
  one.
\<close>

fun score_all ::
  "index \<Rightarrow> ustring list \<Rightarrow> (nat \<times> doc) list \<Rightarrow> (real \<times> nat) list \<Rightarrow> (real \<times> nat) list outcome"
where
  "score_all idx q_terms [] scores = Returns scores"
| "score_all idx q_terms (p # ps) scores =
     (case score_default idx q_terms (int (fst p)) of
        Blocks \<Rightarrow> Blocks
      | Raises err \<Rightarrow> Raises err
      | Returns s \<Rightarrow> score_all idx q_terms ps (if s > 0 then scores @ [(s, fst p)] else scores))"

text \<open>\<^verbatim>\<open>xs[:limit]\<close> for a Python \<^verbatim>\<open>int\<close>: a negative limit drops from the end.\<close>

definition py_prefix :: "'a list \<Rightarrow> int \<Rightarrow> 'a list" where
  "py_prefix xs limit =
     (if 0 \<le> limit then take (nat limit) xs else take (length xs - nat (- limit)) xs)"

text \<open>
  \<^verbatim>\<open>os.path.relpath(path, root)\<close> for a path below the root, as \<^verbatim>\<open>walk_docs\<close> yields
  them.
\<close>

definition relpath :: "string \<Rightarrow> string \<Rightarrow> string" where
  "relpath p r =
     (if take (length r) p = r then dropWhile (\<lambda>c. c = CHR ''/'') (drop (length r) p) else p)"

record result =
  res_title :: string
  res_path :: string
  res_score :: real
  res_snippet :: ustring
  res_mtime :: int

text \<open>
  One entry of \<^verbatim>\<open>results\<close>, with the snippet of width 240. \<^verbatim>\<open>round(float(s), 4)\<close> is
  the nearest multiple of \<open>1/10000\<close> and \<^verbatim>\<open>int(mtime)\<close> drops the fraction.
\<close>

definition result_of :: "env \<Rightarrow> index \<Rightarrow> ustring list \<Rightarrow> real \<times> nat \<Rightarrow> result" where
  "result_of e idx q_terms si =
     (let d = docs idx ! snd si
      in \<lparr>res_title = doc_title d,
          res_path = relpath (doc_path d) (root_dir idx),
          res_score = real_of_int (round (fst si * 10000)) / 10000,
          res_snippet = make_snippet (py e) (doc_text d) q_terms 240,
          res_mtime = (if doc_mtime d < 0 then \<lceil>doc_mtime d\<rceil> else \<lfloor>doc_mtime d\<rfloor>)\<rparr>)"

text \<open>
  \<^verbatim>\<open>search(query, limit)\<close>. It returns the index, which \<^verbatim>\<open>maybe_reindex\<close> may have
  rebuilt, with the results. The sort \<^verbatim>\<open>scores.sort(reverse=True, key=lambda x: x[0])\<close>
  is stable and descending in the score.
\<close>

definition search :: "env \<Rightarrow> index \<Rightarrow> ustring \<Rightarrow> int \<Rightarrow> (index \<times> result list) outcome" where
  "search e idx query limit =
     (case maybe_reindex e idx of
        Blocks \<Rightarrow> Blocks
      | Raises err \<Rightarrow> Raises err
      | Returns idx1 \<Rightarrow>
          (let q_terms = tokenize query
           in if q_terms = [] then Returns (idx1, [])
              else if lock idx1 then Blocks
              else
                case score_all (idx1\<lparr>lock := True\<rparr>) q_terms (enumerate 0 (docs idx1)) [] of
                  Blocks \<Rightarrow> Blocks
                | Raises err \<Rightarrow> Raises err
                | Returns scores \<Rightarrow>
                    Returns (idx1, map (result_of e idx1 q_terms)
                                    (py_prefix (sort_key (\<lambda>si. - fst si) scores) limit))))"

text \<open>The default argument \<^verbatim>\<open>limit=20\<close>.\<close>

definition search_default :: "env \<Rightarrow> index \<Rightarrow> ustring \<Rightarrow> (index \<times> result list) outcome" where
  "search_default e idx query = search e idx query 20"

subsection \<open>Notions used in the statements\<close>

text \<open>The tokens of a file as \<^verbatim>\<open>reindex\<close> computes them.\<close>

definition toks_of :: "env \<Rightarrow> fsfile \<Rightarrow> ustring list" where
  "toks_of e f = tokenize (file_to_text e f)"

text \<open>
  The document \<^verbatim>\<open>reindex\<close> appends for the \<open>i\<close>-th path, when
  \<^verbatim>\<open>os.path.getmtime\<close> returns.
\<close>

definition new_doc :: "env \<Rightarrow> nat \<times> fsfile \<Rightarrow> doc option" where
  "new_doc e p =
     map_option
       (\<lambda>m. \<lparr>doc_id = fst p, doc_path = path (snd p), doc_title = basename (path (snd p)),
             doc_text = file_to_text e (snd p), doc_mtime = m, doc_len = length (toks_of e (snd p))\<rparr>)
       (getmtime (snd p))"

text \<open>
  The summand of the BM25 formula as the specification writes it:
  \<open>idf * tf * (k1 + 1) / (tf + k1 * (1 - b + b * dl / avgdl))\<close>.
\<close>

definition bm25_term :: "real \<Rightarrow> real \<Rightarrow> real \<Rightarrow> real \<Rightarrow> real \<Rightarrow> real \<Rightarrow> real" where
  "bm25_term w n k1 b dl avg = w * n * (k1 + 1) / (n + k1 * (1 - b + b * dl / avg))"

text \<open>The number of documents of the index whose term-frequency table holds \<open>t\<close>.\<close>

definition docs_with :: "index \<Rightarrow> ustring \<Rightarrow> nat" where
  "docs_with idx t = length (filter (\<lambda>fr. map_of fr t \<noteq> None) (tf idx))"

text \<open>\<open>t\<close> occurs in \<open>s\<close> at offset \<open>p\<close>.\<close>

definition occurs_at :: "ustring \<Rightarrow> ustring \<Rightarrow> nat \<Rightarrow> bool" where
  "occurs_at t s p \<longleftrightarrow> p + length t \<le> length s \<and> take (length t) (drop p s) = t"

text \<open>A text of ASCII characters.\<close>

definition is_ascii :: "ustring \<Rightarrow> bool" where
  "is_ascii s \<longleftrightarrow> list_all (\<lambda>c. c < 128) s"

text \<open>
  In a text of ASCII characters, \<open>t\<close> occurs at offset \<open>p\<close> whatever the case of the
  letters on either side.
\<close>

definition ci_occurs_at :: "ustring \<Rightarrow> ustring \<Rightarrow> nat \<Rightarrow> bool" where
  "ci_occurs_at t text p \<longleftrightarrow>
     p + length t \<le> length text \<and> ascii_lower (take (length t) (drop p text)) = ascii_lower t"

text \<open>Some term of the list occurs in the text at offset \<open>p\<close> in that sense.\<close>

definition hit_at :: "ustring \<Rightarrow> ustring list \<Rightarrow> nat \<Rightarrow> bool" where
  "hit_at text terms p \<longleftrightarrow> list_ex (\<lambda>t. ci_occurs_at t text p) terms"

text \<open>A small letter or a digit of ASCII.\<close>

definition is_lower_alnum :: "cp \<Rightarrow> bool" where
  "is_lower_alnum c \<longleftrightarrow> (48 \<le> c \<and> c \<le> 57) \<or> (97 \<le> c \<and> c \<le> 122)"

text \<open>A term as \<^verbatim>\<open>tokenize\<close> yields it: not empty, of small letters and digits.\<close>

definition is_token :: "ustring \<Rightarrow> bool" where
  "is_token t \<longleftrightarrow> t \<noteq> [] \<and> list_all is_lower_alnum t"

text \<open>
  What the statements about snippets use of a runtime, all of it true of CPython.
  Below U+0080 the class \<^verbatim>\<open>\w\<close> is letters, digits and the underscore. A character
  that matches a small letter or a digit under \<^verbatim>\<open>(?i)\<close> is a word character, it
  matches no other small letter or digit, and below U+0080 it is that letter, its
  capital, or that digit. \<^verbatim>\<open>str.lower\<close> on ASCII text is the ASCII table. A set yields
  each of its elements once.
\<close>

definition conventions :: "runtime \<Rightarrow> bool" where
  "conventions U \<longleftrightarrow>
     (\<forall>c. c < 128 \<longrightarrow> re_word U c = is_word c) \<and>
     (\<forall>p c. is_lower_alnum p \<and> re_ci U p c \<longrightarrow> re_word U c) \<and>
     (\<forall>p q c. is_lower_alnum p \<and> is_lower_alnum q \<and> re_ci U p c \<and> re_ci U q c \<longrightarrow> p = q) \<and>
     (\<forall>p c. is_lower_alnum p \<and> c < 128 \<longrightarrow> re_ci U p c = (lower_char c = p)) \<and>
     (\<forall>s. is_ascii s \<longrightarrow> str_lower U s = ascii_lower s) \<and>
     (\<forall>ts. distinct (set_iter U ts) \<and> set (set_iter U ts) = set ts)"

text \<open>The excerpt \<^verbatim>\<open>chunk = text[start:end]\<close> of \<^verbatim>\<open>make_snippet\<close>.\<close>

definition window_start :: "runtime \<Rightarrow> ustring \<Rightarrow> ustring list \<Rightarrow> nat \<Rightarrow> nat" where
  "window_start U text terms width = first_hit_span U text terms - width div 4"

definition window_end :: "runtime \<Rightarrow> ustring \<Rightarrow> ustring list \<Rightarrow> nat \<Rightarrow> nat" where
  "window_end U text terms width = min (length text) (window_start U text terms width + width)"

definition window :: "runtime \<Rightarrow> ustring \<Rightarrow> ustring list \<Rightarrow> nat \<Rightarrow> ustring" where
  "window U text terms width =
     take (window_end U text terms width - window_start U text terms width)
       (drop (window_start U text terms width) text)"

text \<open>The markers \<^verbatim>\<open>prefix\<close> and \<^verbatim>\<open>suffix\<close> of \<^verbatim>\<open>make_snippet\<close>.\<close>

definition lead :: "runtime \<Rightarrow> ustring \<Rightarrow> ustring list \<Rightarrow> nat \<Rightarrow> ustring" where
  "lead U text terms width = (if 0 < window_start U text terms width then [ellipsis] else [])"

definition trail :: "runtime \<Rightarrow> ustring \<Rightarrow> ustring list \<Rightarrow> nat \<Rightarrow> ustring" where
  "trail U text terms width =
     (if window_end U text terms width < length text then [ellipsis] else [])"

text \<open>
  The term \<open>t\<close> occurs in \<open>s\<close> at offset \<open>p\<close> as a whole token, whatever the case of the
  letters: each character there matches the character of \<open>t\<close> as the pattern compiled
  with \<^verbatim>\<open>(?i)\<close> matches it, and the neighbours of the occurrence, where there are any,
  are not word characters.
\<close>

definition token_at :: "runtime \<Rightarrow> ustring \<Rightarrow> ustring \<Rightarrow> nat \<Rightarrow> bool" where
  "token_at U t s p \<longleftrightarrow>
     p + length t \<le> length s \<and> list_all2 (re_ci U) t (take (length t) (drop p s)) \<and>
     (p = 0 \<or> \<not> re_word U (s ! (p - 1))) \<and>
     (p + length t = length s \<or> \<not> re_word U (s ! (p + length t)))"

subsection \<open>A runtime to compute with\<close>

text \<open>
  The tables of CPython on the code points below U+0100 and on U+0130, the capital I
  with a dot. Below U+0100 the word characters outside ASCII are the letters and the
  numeric characters of Latin-1, and the capitals U+00C0 to U+00DE, without the
  multiplication sign U+00D7, have their small letters 32 places further. \<^verbatim>\<open>str.lower\<close>
  maps U+0130 to the two code points U+0069 U+0307, and under \<^verbatim>\<open>(?i)\<close> U+0130 matches
  the letter \<^verbatim>\<open>i\<close>. Every other code point is taken as a caseless character outside
  \<^verbatim>\<open>\w\<close>, which is not what CPython does; the closed statements below evaluate the
  tables on code points below U+0100 and on U+0130 only. For the order of a set the
  list without its repetitions is taken; the terms of the closed statements differ
  in length, so the sort puts them in the same order whatever the order of the set.
\<close>

definition latin1_word :: "cp \<Rightarrow> bool" where
  "latin1_word c \<longleftrightarrow>
     c = 170 \<or> c = 178 \<or> c = 179 \<or> c = 181 \<or> c = 185 \<or> c = 186 \<or> (188 \<le> c \<and> c \<le> 190) \<or>
     (192 \<le> c \<and> c \<le> 214) \<or> (216 \<le> c \<and> c \<le> 246) \<or> (248 \<le> c \<and> c \<le> 255)"

definition simple_lower :: "cp \<Rightarrow> cp" where
  "simple_lower c =
     (if 65 \<le> c \<and> c \<le> 90 then c + 32
      else if 192 \<le> c \<and> c \<le> 222 \<and> c \<noteq> 215 then c + 32
      else if c = 304 then 105
      else c)"

definition full_lower :: "cp \<Rightarrow> ustring" where
  "full_lower c = (if c = 304 then [105, 775] else [simple_lower c])"

definition latin_runtime :: runtime where
  "latin_runtime =
     \<lparr>str_lower = (\<lambda>s. concat (map full_lower s)),
      re_word = (\<lambda>c. is_word c \<or> latin1_word c \<or> c = 304),
      re_ci = (\<lambda>p c. simple_lower c = simple_lower p),
      set_iter = remdups\<rparr>"

subsection \<open>Concrete texts and file systems\<close>

text \<open>One hundred times U+0130, followed by \<^verbatim>\<open>apple\<close>.\<close>

definition dotted_apple :: ustring where
  "dotted_apple = replicate 100 304 @ asc ''apple''"

text \<open>The word \<^verbatim>\<open>caf\<close> with U+00E9 at its end, followed by \<^verbatim>\<open> Hello, hello\<close>.\<close>

definition accented_text :: ustring where
  "accented_text = asc ''caf'' @ [233] @ asc '' Hello, hello''"

text \<open>A text file whose every read yields \<open>s\<close>.\<close>

definition txt_file :: "string \<Rightarrow> ustring \<Rightarrow> real option \<Rightarrow> fsfile" where
  "txt_file p s m = \<lparr>path = p, ext = ''.txt'', read_as = (\<lambda>enc. Some s), getmtime = m\<rparr>"


text \<open>
  Two files that both read as \<^verbatim>\<open>apple\<close>; the second one vanishes after it was read, so
  that \<^verbatim>\<open>os.path.getmtime\<close> raises for it.
\<close>

definition env_vanished :: env where
  "env_vanished =
     \<lparr>files = [txt_file ''/r/a.txt'' (asc ''apple'') (Some 1),
               txt_file ''/r/b.txt'' (asc ''apple'') None],
      clock = 0, strip_html = (\<lambda>s. s), py = latin_runtime\<rparr>"

text \<open>One file that reads as \<^verbatim>\<open>apple\<close>.\<close>

definition env_apple :: env where
  "env_apple =
     \<lparr>files = [txt_file ''/r/a.txt'' (asc ''apple'') (Some 1)], clock = 0, strip_html = (\<lambda>s. s),
      py = latin_runtime\<rparr>"


section \<open>Properties\<close>

subsection \<open>Dictionaries\<close>

lemma keys_bump: "fst ` set (bump k d) = insert k (fst ` set d)"
  by (simp add: bump_def AList.dom_update)

lemma distinct_bump: "distinct (map fst d) \<Longrightarrow> distinct (map fst (bump k d))"
  by (simp add: bump_def AList.distinct_update)

lemma get0_bump: "get0 (bump k d) t = (if t = k then get0 d k + 1 else get0 d t)"
  by (simp add: bump_def get0_def AList.update_conv')

lemma keys_fold_bump: "fst ` set (fold bump ks d) = fst ` set d \<union> set ks"
  by (induction ks arbitrary: d) (auto simp: keys_bump)

lemma distinct_fold_bump: "distinct (map fst d) \<Longrightarrow> distinct (map fst (fold bump ks d))"
  by (induction ks arbitrary: d) (auto simp: distinct_bump)

lemma get0_fold_bump: "get0 (fold bump ks d) t = get0 d t + count_list ks t"
  by (induction ks arbitrary: d) (auto simp: get0_bump)

lemma term_freqs_keys: "fst ` set (term_freqs toks) = set toks"
  by (simp add: term_freqs_def keys_fold_bump)

lemma term_freqs_None: "map_of (term_freqs toks) t = None \<longleftrightarrow> t \<notin> set toks"
  by (simp add: map_of_eq_None_iff term_freqs_keys)

lemma term_freqs_distinct: "distinct (map fst (term_freqs toks))"
  by (simp add: term_freqs_def distinct_fold_bump)

lemma term_freqs_count: "map_of (term_freqs toks) t = (if t \<in> set toks then Some (count_list toks t) else None)"
proof (cases "t \<in> set toks")
  case True
  then have "map_of (term_freqs toks) t \<noteq> None" using term_freqs_None[of toks t] by blast
  then obtain n where n: "map_of (term_freqs toks) t = Some n" by auto
  then have "get0 (term_freqs toks) t = n" by (simp add: get0_def)
  moreover have "get0 (term_freqs toks) t = count_list toks t"
    using get0_fold_bump[of toks "[]" t] by (simp add: term_freqs_def get0_def)
  ultimately show ?thesis using n True by simp
next
  case False
  then show ?thesis using term_freqs_None[of toks t] by simp
qed

lemma count_list_distinct: "distinct ks \<Longrightarrow> count_list ks t = (if t \<in> set ks then 1 else 0)"
  by (induction ks) auto

lemma get0_count_doc:
  "get0 (count_doc (term_freqs toks) d) t = get0 d t + (if t \<in> set toks then 1 else 0)"
proof -
  have "count_list (map fst (term_freqs toks)) t = (if t \<in> set toks then 1 else 0)"
    using count_list_distinct[OF term_freqs_distinct, of toks t]
    by (simp add: term_freqs_keys)
  then show ?thesis by (simp add: count_doc_def get0_fold_bump)
qed

lemma keys_count_doc: "fst ` set (count_doc fr d) = fst ` set d \<union> fst ` set fr"
  by (simp add: count_doc_def keys_fold_bump)

lemma distinct_count_doc: "distinct (map fst d) \<Longrightarrow> distinct (map fst (count_doc fr d))"
  by (simp add: count_doc_def distinct_fold_bump)

subsection \<open>The build loop\<close>

lemma index_file_docs: "docs (index_file e p idx) = docs idx @ (case new_doc e p of None \<Rightarrow> [] | Some d \<Rightarrow> [d])"
  by (simp add: index_file_def new_doc_def toks_of_def Let_def split: option.splits)

lemma index_file_tf:
  "tf (index_file e p idx) =
     tf idx @ (if getmtime (snd p) = None then [] else [term_freqs (toks_of e (snd p))])"
  by (simp add: index_file_def toks_of_def Let_def split: option.splits)

lemma index_file_df: "df (index_file e p idx) = count_doc (term_freqs (toks_of e (snd p))) (df idx)"
  by (simp add: index_file_def toks_of_def Let_def split: option.splits)

lemma index_file_frame:
  "lock (index_file e p idx) = lock idx \<and> root_dir (index_file e p idx) = root_dir idx \<and>
   avgdl (index_file e p idx) = avgdl idx \<and> idf (index_file e p idx) = idf idx \<and>
   last_build (index_file e p idx) = last_build idx"
  by (simp add: index_file_def Let_def split: option.splits)

lemma fold_index_file_docs:
  "docs (fold (index_file e) ps idx) = docs idx @ List.map_filter (new_doc e) ps"
  by (induction ps arbitrary: idx)
     (auto simp: index_file_docs List.map_filter_simps split: option.splits)

lemma fold_index_file_tf:
  "tf (fold (index_file e) ps idx) =
     tf idx @ map (\<lambda>p. term_freqs (toks_of e (snd p))) (filter (\<lambda>p. getmtime (snd p) \<noteq> None) ps)"
  by (induction ps arbitrary: idx) (auto simp: index_file_tf)

lemma fold_index_file_df_get0:
  "get0 (df (fold (index_file e) ps idx)) t =
     get0 (df idx) t + length (filter (\<lambda>p. t \<in> set (toks_of e (snd p))) ps)"
  by (induction ps arbitrary: idx) (auto simp: index_file_df get0_count_doc)

lemma fold_index_file_df_keys:
  "fst ` set (df (fold (index_file e) ps idx)) =
     fst ` set (df idx) \<union> (\<Union>p\<in>set ps. set (toks_of e (snd p)))"
  by (induction ps arbitrary: idx) (auto simp: index_file_df keys_count_doc term_freqs_keys)

lemma fold_index_file_df_distinct:
  "distinct (map fst (df idx)) \<Longrightarrow> distinct (map fst (df (fold (index_file e) ps idx)))"
  by (induction ps arbitrary: idx) (auto simp: index_file_df distinct_count_doc)

lemma fold_index_file_frame:
  "lock (fold (index_file e) ps idx) = lock idx \<and>
   root_dir (fold (index_file e) ps idx) = root_dir idx \<and>
   avgdl (fold (index_file e) ps idx) = avgdl idx \<and>
   idf (fold (index_file e) ps idx) = idf idx \<and>
   last_build (fold (index_file e) ps idx) = last_build idx"
  by (induction ps arbitrary: idx) (simp_all add: index_file_frame)

lemma filter_snd_enumerate: "map snd (filter (\<lambda>p. P (snd p)) (enumerate n xs)) = filter P xs"
  by (induction xs arbitrary: n) auto

lemma length_filter_snd_enumerate:
  "length (filter (\<lambda>p. P (snd p)) (enumerate n xs)) = length (filter P xs)"
  using filter_snd_enumerate[of P n xs] by (metis length_map)

lemma fold_idf_map_of:
  "distinct (map fst d) \<Longrightarrow>
   map_of (fold (\<lambda>td m. AList.update (fst td) (g (snd td)) m) d m0) t =
     (case map_of d t of None \<Rightarrow> map_of m0 t | Some v \<Rightarrow> Some (g v))"
proof (induction d arbitrary: m0)
  case Nil
  then show ?case by simp
next
  case (Cons a d)
  then have nin: "fst a \<notin> fst ` set d" and dd: "distinct (map fst d)" by auto
  have "map_of d (fst a) = None" using nin by (simp add: map_of_eq_None_iff)
  then show ?case using Cons.IH[OF dd, of "AList.update (fst a) (g (snd a)) m0"]
    by (cases a) (auto simp: AList.update_conv' split: option.splits)
qed

lemma get0_Nil: "get0 [] t = 0"
  by (simp add: get0_def)

subsection \<open>The three stages of a build\<close>

lemma scan_docs: "docs (scan e idx) = docs idx @ List.map_filter (new_doc e) (enumerate 0 (walk_docs e))"
  by (simp add: scan_def fold_index_file_docs)

lemma map_filter_snd_enumerate:
  "map (\<lambda>p. g (snd p)) (filter (\<lambda>p. P (snd p)) (enumerate n xs)) = map g (filter P xs)"
  by (induction xs arbitrary: n) auto

lemma scan_tf:
  "tf (scan e idx) =
     tf idx @ map (\<lambda>f. term_freqs (toks_of e f)) (filter (\<lambda>f. getmtime f \<noteq> None) (walk_docs e))"
  using map_filter_snd_enumerate[of "\<lambda>f. term_freqs (toks_of e f)" "\<lambda>f. getmtime f \<noteq> None" 0 "walk_docs e"]
  by (simp add: scan_def fold_index_file_tf)

lemma scan_df_get0:
  "get0 (df (scan e idx)) t =
     get0 (df idx) t + length (filter (\<lambda>f. t \<in> set (toks_of e f)) (walk_docs e))"
  using length_filter_snd_enumerate[of "\<lambda>f. t \<in> set (toks_of e f)" 0 "walk_docs e"]
  by (simp add: scan_def fold_index_file_df_get0)

lemma scan_df_distinct: "distinct (map fst (df idx)) \<Longrightarrow> distinct (map fst (df (scan e idx)))"
  by (simp add: scan_def fold_index_file_df_distinct)

lemma scan_frame:
  "lock (scan e idx) = lock idx \<and> root_dir (scan e idx) = root_dir idx \<and>
   avgdl (scan e idx) = avgdl idx \<and> idf (scan e idx) = idf idx \<and>
   last_build (scan e idx) = last_build idx"
  by (simp add: scan_def fold_index_file_frame)

lemma statistics_frame:
  "docs (statistics idx) = docs idx \<and> tf (statistics idx) = tf idx \<and> df (statistics idx) = df idx \<and>
   lock (statistics idx) = lock idx \<and> root_dir (statistics idx) = root_dir idx \<and>
   last_build (statistics idx) = last_build idx"
  by (simp add: statistics_def Let_def)

lemma statistics_avgdl:
  "avgdl (statistics idx) = real (sum_list (map doc_len (docs idx))) / real (doc_count idx)"
  by (simp add: statistics_def Let_def)

lemma statistics_idf:
  "distinct (map fst (df idx)) \<Longrightarrow> idf idx = [] \<Longrightarrow>
   map_of (idf (statistics idx)) t = map_option (bm25_idf (doc_count idx)) (map_of (df idx) t)"
  by (simp add: statistics_def Let_def fold_idf_map_of split: option.splits)

subsection \<open>What a build returns\<close>

lemma reindex_Blocks: "reindex e idx = Blocks \<longleftrightarrow> lock idx"
  by (simp add: reindex_def)

lemma reindex_not_Raises: "reindex e idx \<noteq> Raises err"
  by (simp add: reindex_def)


lemma reindex_docs:
  "reindex e idx = Returns idx' \<Longrightarrow> docs idx' = List.map_filter (new_doc e) (enumerate 0 (walk_docs e))"
  by (auto simp: reindex_def statistics_frame scan_docs reset_def split: if_splits)

lemma reindex_tf:
  "reindex e idx = Returns idx' \<Longrightarrow>
   tf idx' = map (\<lambda>f. term_freqs (toks_of e f)) (filter (\<lambda>f. getmtime f \<noteq> None) (walk_docs e))"
  by (auto simp: reindex_def statistics_frame scan_tf reset_def split: if_splits)

lemma reindex_df_get0:
  "reindex e idx = Returns idx' \<Longrightarrow>
   get0 (df idx') t = length (filter (\<lambda>f. t \<in> set (toks_of e f)) (walk_docs e))"
  by (auto simp: reindex_def statistics_frame scan_df_get0 reset_def get0_Nil split: if_splits)

lemma reindex_df_distinct: "reindex e idx = Returns idx' \<Longrightarrow> distinct (map fst (df idx'))"
  by (auto simp: reindex_def statistics_frame scan_df_distinct reset_def split: if_splits)

lemma reindex_doc_count: "reindex e idx = Returns idx' \<Longrightarrow> doc_count idx' = doc_count (scan e (reset e (idx\<lparr>lock := True\<rparr>)))"
  by (auto simp: reindex_def doc_count_def statistics_frame split: if_splits)

lemma reindex_avgdl:
  "reindex e idx = Returns idx' \<Longrightarrow>
   avgdl idx' = real (sum_list (map doc_len (docs idx'))) / real (doc_count idx')"
  by (auto simp: reindex_def doc_count_def statistics_frame statistics_avgdl split: if_splits)

lemma reindex_idf:
  assumes "reindex e idx = Returns idx'"
  shows "map_of (idf idx') t = map_option (bm25_idf (doc_count idx')) (map_of (df idx') t)"
proof -
  define s where "s = scan e (reset e (idx\<lparr>lock := True\<rparr>))"
  have r: "idx' = (statistics s)\<lparr>lock := False\<rparr>"
    using assms by (auto simp: reindex_def s_def split: if_splits)
  have d: "distinct (map fst (df s))"
    unfolding s_def by (rule scan_df_distinct) (simp add: reset_def)
  have i0: "idf s = []"
    by (simp add: s_def scan_frame reset_def)
  have "map_of (idf (statistics s)) t = map_option (bm25_idf (doc_count s)) (map_of (df s) t)"
    by (rule statistics_idf[OF d i0])
  then show ?thesis
    by (simp add: r statistics_frame doc_count_def)
qed

lemma reindex_frame:
  "reindex e idx = Returns idx' \<Longrightarrow>
   \<not> lock idx' \<and> root_dir idx' = root_dir idx \<and> last_build idx' = clock e"
  by (auto simp: reindex_def statistics_frame scan_frame reset_def split: if_splits)

subsection \<open>The scorer on a built index\<close>

lemma bm25_denom_pos:
  assumes "0 < (avg::real)" "0 < (k1::real)" "0 \<le> (b::real)" "b < 1" "0 \<le> (n::real)" "0 \<le> (dl::real)"
  shows "0 < n + k1 * (1 - b + b * dl / avg)"
proof -
  have "0 \<le> b * dl / avg" using assms by simp
  then have "0 < 1 - b + b * dl / avg" using assms by linarith
  then have "0 < k1 * (1 - b + b * dl / avg)" using assms by simp
  then show ?thesis using assms by linarith
qed

lemma score_terms_nomatch:
  "\<forall>t\<in>set q. map_of freq t = None \<Longrightarrow> score_terms idx d freq k1 b q acc = Returns acc"
  by (induction q arbitrary: acc) auto

lemma score_terms_sum:
  assumes "0 < avgdl idx" "0 < k1" "0 \<le> b" "b < 1"
  shows "score_terms idx d freq k1 b q acc =
     Returns (acc + (\<Sum>t\<leftarrow>filter (\<lambda>t. map_of freq t \<noteq> None) q.
        bm25_term (idf_get idx t) (real (get0 freq t)) k1 b (real (max 1 (doc_len d))) (avgdl idx)))"
proof (induction q arbitrary: acc)
  case Nil
  then show ?case by simp
next
  case (Cons t q)
  show ?case
  proof (cases "map_of freq t")
    case None
    then show ?thesis using Cons.IH by simp
  next
    case (Some n)
    have dl: "(if doc_len d = 0 then 1 else doc_len d) = max 1 (doc_len d)" by simp
    have pos: "0 < real n + k1 * (1 - b + b * real (max 1 (doc_len d)) / avgdl idx)"
      by (rule bm25_denom_pos) (use assms in simp_all)
    have g: "get0 freq t = n" using Some by (simp add: get0_def)
    show ?thesis
      using Some pos assms(1) g
      by (simp add: Cons.IH Let_def dl bm25_term_def algebra_simps del: max.absorb1 max.absorb2 max.absorb3 max.absorb4)
  qed
qed

lemma py_nth_Some:
  "py_nth xs i = Some x \<longleftrightarrow>
     (let j = (if i < 0 then int (length xs) + i else i) in 0 \<le> j \<and> j < int (length xs) \<and> x = xs ! nat j)"
  by (auto simp: py_nth_def Let_def)

lemma py_nth_nat: "k < length xs \<Longrightarrow> py_nth xs (int k) = Some (xs ! k)"
  by (simp add: py_nth_def)

lemma scan_aligned:
  "list_all2 (\<lambda>d fr. \<exists>f. fr = term_freqs (toks_of e f) \<and> doc_len d = length (toks_of e f))
     (List.map_filter (new_doc e) (enumerate n xs))
     (map (\<lambda>f. term_freqs (toks_of e f)) (filter (\<lambda>f. getmtime f \<noteq> None) xs))"
  by (induction xs arbitrary: n) (auto simp: List.map_filter_simps new_doc_def)

lemma reindex_aligned:
  assumes "reindex e idx = Returns idx'"
  shows "list_all2 (\<lambda>d fr. \<exists>f. fr = term_freqs (toks_of e f) \<and> doc_len d = length (toks_of e f))
     (docs idx') (tf idx')"
  using scan_aligned[of e 0 "walk_docs e"] reindex_docs[OF assms] reindex_tf[OF assms] by simp

lemma reindex_length_tf: "reindex e idx = Returns idx' \<Longrightarrow> length (tf idx') = length (docs idx')"
  using reindex_aligned[of e idx idx'] by (simp add: list_all2_lengthD)

lemma reindex_match_len:
  assumes "reindex e idx = Returns idx'" "k < length (docs idx')" "map_of (tf idx' ! k) t = Some n"
  shows "1 \<le> doc_len (docs idx' ! k) \<and> 1 \<le> n"
proof -
  obtain f where f: "tf idx' ! k = term_freqs (toks_of e f)" "doc_len (docs idx' ! k) = length (toks_of e f)"
    using reindex_aligned[OF assms(1)] assms(2) by (auto simp: list_all2_conv_all_nth)
  have "t \<in> set (toks_of e f)" using assms(3) f(1) term_freqs_None[of "toks_of e f" t] by auto
  moreover from this have "n = count_list (toks_of e f) t"
    using assms(3) f(1) by (simp add: term_freqs_count)
  moreover have "toks_of e f \<noteq> []" using calculation(1) by auto
  moreover have "0 < count_list (toks_of e f) t"
    using calculation(1) count_list_0_iff[of "toks_of e f" t] by simp
  ultimately show ?thesis using f(2) by (simp add: Suc_le_eq)
qed

lemma reindex_avgdl_pos:
  assumes "reindex e idx = Returns idx'" "k < length (docs idx')" "map_of (tf idx' ! k) t = Some n"
  shows "0 < sum_list (map doc_len (docs idx')) \<and> 0 < avgdl idx'"
proof -
  have "1 \<le> doc_len (docs idx' ! k)" using reindex_match_len[OF assms] by simp
  moreover have "doc_len (docs idx' ! k) \<le> sum_list (map doc_len (docs idx'))"
    using assms(2) by (simp add: member_le_sum_list)
  ultimately have s: "0 < sum_list (map doc_len (docs idx'))" by linarith
  have "0 < doc_count idx'" by (simp add: doc_count_def)
  then show ?thesis using s by (simp add: reindex_avgdl[OF assms(1)])
qed

lemma score_terms_built:
  assumes "reindex e idx = Returns idx'" "k < length (docs idx')" "0 < k1" "0 \<le> b" "b < 1"
  shows "score_terms idx' (docs idx' ! k) (tf idx' ! k) k1 b q 0 =
     Returns (\<Sum>t\<leftarrow>filter (\<lambda>t. map_of (tf idx' ! k) t \<noteq> None) q.
        bm25_term (idf_get idx' t) (real (get0 (tf idx' ! k) t)) k1 b
          (real (max 1 (doc_len (docs idx' ! k)))) (avgdl idx'))"
proof (cases "\<forall>t\<in>set q. map_of (tf idx' ! k) t = None")
  case True
  then have "filter (\<lambda>t. map_of (tf idx' ! k) t \<noteq> None) q = []"
    by (simp add: filter_empty_conv)
  then show ?thesis using score_terms_nomatch[OF True] by simp
next
  case False
  then obtain t n where "map_of (tf idx' ! k) t = Some n" by auto
  then have "0 < avgdl idx'" using reindex_avgdl_pos[OF assms(1,2)] by simp
  then show ?thesis using score_terms_sum[OF _ assms(3-5), of idx' _ _ q 0] by simp
qed

subsection \<open>Document frequencies\<close>

lemma term_freqs_Some_iff: "(\<exists>y. map_of (term_freqs toks) t = Some y) \<longleftrightarrow> t \<in> set toks"
  using term_freqs_None[of toks t] by auto

lemma scan_df_keys:
  "fst ` set (df (scan e idx)) = fst ` set (df idx) \<union> (\<Union>f\<in>set (walk_docs e). set (toks_of e f))"
proof -
  have "snd ` set (enumerate 0 (walk_docs e)) = set (walk_docs e)"
    by (metis map_snd_enumerate set_map)
  then have "(\<Union>p\<in>set (enumerate 0 (walk_docs e)). set (toks_of e (snd p))) =
             (\<Union>f\<in>set (walk_docs e). set (toks_of e f))"
    by (metis (no_types) image_image)
  then show ?thesis by (simp add: scan_def fold_index_file_df_keys)
qed

lemma reindex_df_keys:
  "reindex e idx = Returns idx' \<Longrightarrow>
   fst ` set (df idx') = (\<Union>f\<in>set (walk_docs e). set (toks_of e f))"
proof -
  assume "reindex e idx = Returns idx'"
  then have "df idx' = df (scan e (reset e (idx\<lparr>lock := True\<rparr>)))"
    by (auto simp: reindex_def statistics_frame split: if_splits)
  then show ?thesis by (simp add: scan_df_keys reset_def)
qed

lemma reindex_docs_with:
  assumes "reindex e idx = Returns idx'"
  shows "docs_with idx' t =
     length (filter (\<lambda>f. getmtime f \<noteq> None \<and> t \<in> set (toks_of e f)) (walk_docs e))"
  by (simp add: docs_with_def reindex_tf[OF assms] filter_map comp_def term_freqs_Some_iff conj_commute)

lemma reindex_df_excess:
  assumes "reindex e idx = Returns idx'"
  shows "get0 (df idx') t =
     docs_with idx' t + length (filter (\<lambda>f. getmtime f = None \<and> t \<in> set (toks_of e f)) (walk_docs e))"
proof -
  have "length (filter (\<lambda>f. t \<in> set (toks_of e f)) xs) =
        length (filter (\<lambda>f. getmtime f \<noteq> None \<and> t \<in> set (toks_of e f)) xs) +
        length (filter (\<lambda>f. getmtime f = None \<and> t \<in> set (toks_of e f)) xs)" for xs
    by (induction xs) auto
  then show ?thesis
    by (simp only: reindex_df_get0[OF assms] reindex_docs_with[OF assms])
qed

lemma reindex_length_docs:
  assumes "reindex e idx = Returns idx'"
  shows "length (docs idx') = length (filter (\<lambda>f. getmtime f \<noteq> None) (walk_docs e))"
  using reindex_length_tf[OF assms] reindex_tf[OF assms] by simp

lemma reindex_df_exact:
  assumes "reindex e idx = Returns idx'" "\<forall>f\<in>set (walk_docs e). getmtime f \<noteq> None"
  shows "get0 (df idx') t = docs_with idx' t \<and> get0 (df idx') t \<le> length (docs idx')"
proof -
  have "filter (\<lambda>f. getmtime f = None \<and> t \<in> set (toks_of e f)) (walk_docs e) = []"
    using assms(2) by (auto simp: filter_empty_conv)
  then have a: "get0 (df idx') t = docs_with idx' t"
    using reindex_df_excess[OF assms(1), of t] by simp
  have "docs_with idx' t \<le> length (tf idx')" by (simp add: docs_with_def)
  then show ?thesis using a reindex_length_tf[OF assms(1)] by simp
qed

subsection \<open>Inverse document frequencies\<close>

lemma bm25_idf_alt: "bm25_idf N d = ln ((real N + 1) / (real d + 0.5))"
proof -
  have "(real N - real d + 0.5) / (real d + 0.5) + 1 = (real N + 1) / (real d + 0.5)"
    by (simp add: field_simps)
  then show ?thesis by (simp add: bm25_idf_def)
qed

lemma bm25_idf_nonneg: "d \<le> N \<Longrightarrow> 0 \<le> bm25_idf N d"
  by (simp add: bm25_idf_alt)

lemma bm25_idf_negative: "N < d \<Longrightarrow> bm25_idf N d < 0"
  by (simp add: bm25_idf_alt)

lemma bm25_idf_decreasing: "d < d' \<Longrightarrow> bm25_idf N d' < bm25_idf N d"
proof -
  assume "d < d'"
  then have "(real N + 1) / (real d' + 0.5) < (real N + 1) / (real d + 0.5)"
    by (simp add: frac_less2)
  moreover have "0 < (real N + 1) / (real d' + 0.5)" by simp
  ultimately show ?thesis by (simp add: bm25_idf_alt del: ln_less_cancel_iff) (simp add: ln_less_cancel_iff)
qed

lemma reindex_idf_value:
  assumes "reindex e idx = Returns idx'" "map_of (df idx') t = Some d"
  shows "map_of (idf idx') t = Some (bm25_idf (doc_count idx') d)"
  using reindex_idf[OF assms(1), of t] assms(2) by simp

lemma reindex_idf_when_no_skip:
  assumes "reindex e idx = Returns idx'" "\<forall>f\<in>set (walk_docs e). getmtime f \<noteq> None"
    "map_of (df idx') t = Some d"
  shows "map_of (idf idx') t = Some (bm25_idf (length (docs idx')) d) \<and> 0 \<le> bm25_idf (length (docs idx')) d"
proof -
  have g: "get0 (df idx') t = d" using assms(3) by (simp add: get0_def)
  have le: "d \<le> length (docs idx')" using reindex_df_exact[OF assms(1,2), of t] g by simp
  have "t \<in> fst ` set (df idx')" using assms(3) by (metis map_of_eq_None_iff option.distinct(1))
  have "0 < d"
  proof (rule ccontr)
    assume "\<not> 0 < d"
    then have "length (filter (\<lambda>f. t \<in> set (toks_of e f)) (walk_docs e)) = 0"
      using reindex_df_get0[OF assms(1), of t] g by simp
    then have "\<forall>f\<in>set (walk_docs e). t \<notin> set (toks_of e f)" by (simp add: filter_empty_conv)
    moreover have "fst ` set (df idx') = (\<Union>f\<in>set (walk_docs e). set (toks_of e f))"
      by (rule reindex_df_keys[OF assms(1)])
    ultimately show False using \<open>t \<in> fst ` set (df idx')\<close> by auto
  qed
  then have "docs idx' \<noteq> []" using le by auto
  then have "doc_count idx' = length (docs idx')" by (simp add: doc_count_def)
  then show ?thesis using reindex_idf_value[OF assms(1,3)] bm25_idf_nonneg[OF le] by simp
qed

subsection \<open>The score of a document of a built index\<close>

lemma score_default_built:
  assumes "reindex e idx = Returns idx'" "k < length (docs idx')"
  shows "score_default idx' q (int k) =
     Returns (\<Sum>t\<leftarrow>filter (\<lambda>t. map_of (tf idx' ! k) t \<noteq> None) q.
        bm25_term (idf_get idx' t) (real (get0 (tf idx' ! k) t)) 1.5 0.75
          (real (max 1 (doc_len (docs idx' ! k)))) (avgdl idx'))"
proof -
  have l: "\<not> lock idx'" using reindex_frame[OF assms(1)] by simp
  have k2: "k < length (tf idx')" using assms(2) reindex_length_tf[OF assms(1)] by simp
  show ?thesis
    using score_terms_built[OF assms, of "1.5" "0.75" q] l
    by (simp add: score_default_def score_def py_nth_nat[OF assms(2)] py_nth_nat[OF k2])
qed

lemma score_default_nomatch:
  assumes "reindex e idx = Returns idx'" "k < length (docs idx')"
    "\<forall>t\<in>set q. map_of (tf idx' ! k) t = None"
  shows "score_default idx' q (int k) = Returns 0"
proof -
  have "filter (\<lambda>t. map_of (tf idx' ! k) t \<noteq> None) q = []"
    using assms(3) by (simp add: filter_empty_conv)
  then show ?thesis using score_default_built[OF assms(1,2), of q] by simp
qed

lemma idf_get_nonneg_when_no_skip:
  assumes "reindex e idx = Returns idx'" "\<forall>f\<in>set (walk_docs e). getmtime f \<noteq> None"
  shows "0 \<le> idf_get idx' t"
proof (cases "map_of (df idx') t")
  case None
  then show ?thesis using reindex_idf[OF assms(1), of t] by (simp add: idf_get_def)
next
  case (Some d)
  then show ?thesis using reindex_idf_when_no_skip[OF assms Some] by (simp add: idf_get_def)
qed

lemma bm25_term_nonneg:
  assumes "0 \<le> w" "0 \<le> n" "0 < avg" "1 \<le> dl"
  shows "0 \<le> bm25_term w n 1.5 0.75 dl avg"
proof -
  have "0 < n + 1.5 * (1 - 0.75 + 0.75 * dl / avg)"
    by (rule bm25_denom_pos) (use assms in simp_all)
  then show ?thesis using assms by (simp add: bm25_term_def)
qed

lemma score_nonneg_when_no_skip:
  assumes "reindex e idx = Returns idx'" "\<forall>f\<in>set (walk_docs e). getmtime f \<noteq> None"
    "k < length (docs idx')"
  shows "\<exists>s. score_default idx' q (int k) = Returns s \<and> 0 \<le> s"
proof -
  have "0 \<le> bm25_term (idf_get idx' t) (real (get0 (tf idx' ! k) t)) 1.5 0.75
          (real (max 1 (doc_len (docs idx' ! k)))) (avgdl idx')"
    if "t \<in> set (filter (\<lambda>t. map_of (tf idx' ! k) t \<noteq> None) q)" for t
  proof -
    have "map_of (tf idx' ! k) t \<noteq> None" using that by simp
    then obtain n where "map_of (tf idx' ! k) t = Some n" by blast
    then have "0 < avgdl idx'" using reindex_avgdl_pos[OF assms(1,3)] by simp
    then show ?thesis
      using idf_get_nonneg_when_no_skip[OF assms(1,2), of t] by (intro bm25_term_nonneg) simp_all
  qed
  then have "0 \<le> (\<Sum>t\<leftarrow>filter (\<lambda>t. map_of (tf idx' ! k) t \<noteq> None) q.
        bm25_term (idf_get idx' t) (real (get0 (tf idx' ! k) t)) 1.5 0.75
          (real (max 1 (doc_len (docs idx' ! k)))) (avgdl idx'))"
    by (intro sum_list_nonneg) auto
  then show ?thesis using score_default_built[OF assms(1,3), of q] by simp
qed

subsection \<open>Rebuilds\<close>

lemma reindex_replaces:
  assumes "\<not> lock idx" "\<not> lock idx2" "root_dir idx = root_dir idx2"
  shows "reindex e idx = reindex e idx2"
proof -
  have "reset e (idx\<lparr>lock := True\<rparr>) = reset e (idx2\<lparr>lock := True\<rparr>)"
    using assms(3) by (cases idx, cases idx2) (simp add: reset_def)
  then show ?thesis using assms(1,2) by (simp add: reindex_def)
qed



subsection \<open>Queries\<close>

lemma maybe_reindex_Blocks: "maybe_reindex e idx = Blocks \<longleftrightarrow> lock idx"
  by (simp add: maybe_reindex_def Let_def reindex_def)


lemma maybe_reindex_Returns:
  assumes "\<not> lock idx"
  shows "\<exists>idx1. maybe_reindex e idx = Returns idx1 \<and> \<not> lock idx1 \<and>
           (idx1 = idx \<or> reindex e idx = Returns idx1)"
  using assms by (simp add: maybe_reindex_def Let_def reindex_def)

lemma score_locked: "lock idx \<Longrightarrow> score idx q i k1 b = Blocks"
  by (simp add: score_def)

lemma score_all_locked:
  "lock idx \<Longrightarrow> score_all idx q ps acc = (if ps = [] then Returns acc else Blocks)"
  by (cases ps) (simp_all add: score_default_def score_locked)

lemma enumerate_Nil_iff: "enumerate n xs = [] \<longleftrightarrow> xs = []"
  by (cases xs) simp_all

lemma search_unfold:
  assumes "maybe_reindex e idx = Returns idx1"
  shows "search e idx query limit =
     (if tokenize query = [] \<or> docs idx1 = [] then Returns (idx1, []) else Blocks)"
proof -
  have "\<not> lock idx" using assms maybe_reindex_Blocks[of e idx] by auto
  then have l: "\<not> lock idx1" using maybe_reindex_Returns[of idx e] assms by auto
  show ?thesis
    using l by (simp add: search_def assms Let_def score_all_locked enumerate_Nil_iff py_prefix_def)
qed


lemma search_Blocks:
  assumes "maybe_reindex e idx = Returns idx1" "tokenize query \<noteq> []" "docs idx1 \<noteq> []"
  shows "search e idx query limit = Blocks"
  using assms by (simp add: search_unfold)

subsection \<open>Queries without a token\<close>

lemma findall_no_alnum: "\<forall>c\<in>set s. \<not> is_alnum c \<Longrightarrow> findall [] s = []"
  by (induction s) auto

lemma findall_Nil_iff: "findall cur s = [] \<longleftrightarrow> cur = [] \<and> (\<forall>c\<in>set s. \<not> is_alnum c)"
  by (induction s arbitrary: cur) auto

lemma tokenize_Nil_iff: "tokenize s = [] \<longleftrightarrow> (\<forall>c\<in>set s. \<not> is_alnum c)"
  by (simp add: tokenize_def findall_Nil_iff)

lemma is_space_not_alnum: "is_space c \<Longrightarrow> \<not> is_alnum c"
  by (auto simp: is_space_def is_alnum_def)

subsection \<open>What the runtime is known to do\<close>

lemma conv_word: "conventions U \<Longrightarrow> c < 128 \<Longrightarrow> re_word U c = is_word c"
  unfolding conventions_def by blast

lemma conv_ci_word: "conventions U \<Longrightarrow> is_lower_alnum p \<Longrightarrow> re_ci U p c \<Longrightarrow> re_word U c"
  unfolding conventions_def by blast

lemma conv_ci_unique:
  "conventions U \<Longrightarrow> is_lower_alnum p \<Longrightarrow> is_lower_alnum q \<Longrightarrow> re_ci U p c \<Longrightarrow> re_ci U q c \<Longrightarrow> p = q"
  unfolding conventions_def by blast

lemma conv_ci_ascii:
  "conventions U \<Longrightarrow> is_lower_alnum p \<Longrightarrow> c < 128 \<Longrightarrow> re_ci U p c = (lower_char c = p)"
  unfolding conventions_def by blast

lemma conv_lower: "conventions U \<Longrightarrow> is_ascii s \<Longrightarrow> str_lower U s = ascii_lower s"
  unfolding conventions_def by blast

lemma conv_set_iter: "conventions U \<Longrightarrow> distinct (set_iter U ts) \<and> set (set_iter U ts) = set ts"
  unfolding conventions_def by blast

lemma is_tokenD: "is_token t \<Longrightarrow> t \<noteq> [] \<and> list_all is_lower_alnum t"
  by (simp add: is_token_def)

lemma spelled_word:
  assumes "conventions U" "is_token t" "list_all2 (re_ci U) t w"
  shows "length w = length t \<and> w \<noteq> [] \<and> list_all (re_word U) w"
proof -
  have len: "length t = length w" using assms(3) by (rule list_all2_lengthD)
  have ne: "w \<noteq> []" using len assms(2) by (auto simp: is_token_def)
  have "re_word U (w ! i)" if "i < length w" for i
  proof -
    have "re_ci U (t ! i) (w ! i)" using assms(3) that len by (simp add: list_all2_conv_all_nth)
    moreover have "is_lower_alnum (t ! i)"
      using assms(2) that len by (simp add: is_token_def list_all_length)
    ultimately show ?thesis using conv_ci_word[OF assms(1)] by blast
  qed
  then have "list_all (re_word U) w" by (simp add: list_all_length)
  then show ?thesis using len ne by simp
qed

lemma spelled_unique:
  assumes "conventions U" "is_token t" "is_token t'"
    "list_all2 (re_ci U) t w" "list_all2 (re_ci U) t' w"
  shows "t = t'"
proof (rule nth_equalityI)
  have l1: "length t = length w" using assms(4) by (rule list_all2_lengthD)
  have l2: "length t' = length w" using assms(5) by (rule list_all2_lengthD)
  show "length t = length t'" using l1 l2 by simp
  fix i assume i: "i < length t"
  have a: "re_ci U (t ! i) (w ! i)" using assms(4) i by (simp add: list_all2_conv_all_nth)
  have b: "re_ci U (t' ! i) (w ! i)" using assms(5) i l1 l2 by (simp add: list_all2_conv_all_nth)
  have c: "is_lower_alnum (t ! i)" using assms(2) i by (simp add: is_token_def list_all_length)
  have d: "is_lower_alnum (t' ! i)" using assms(3) i l1 l2 by (simp add: is_token_def list_all_length)
  show "t ! i = t' ! i" by (rule conv_ci_unique[OF assms(1) c d a b])
qed

lemma escaped_not_word:
  assumes "conventions U"
  shows "\<not> re_word U 38" "\<not> re_word U 59" "\<not> re_word U 60" "\<not> re_word U 62" "\<not> re_word U 47"
    "\<not> re_word U 34" "\<not> re_word U 39"
  using conv_word[OF assms] by (simp_all add: is_word_def is_alnum_def)

lemma word_not_escaped: "conventions U \<Longrightarrow> re_word U c \<Longrightarrow> escape_char c = [c]"
  using escaped_not_word[of U] by (auto simp: escape_char_def)

lemma escape_char_ends:
  assumes "conventions U"
  shows "escape_char c \<noteq> [] \<and>
   (\<not> re_word U c \<longrightarrow> \<not> re_word U (hd (escape_char c)) \<and> \<not> re_word U (last (escape_char c)))"
  using escaped_not_word[OF assms] by (simp add: escape_char_def asc_def)

lemma length_escape_char: "1 \<le> length (escape_char c)"
  by (simp add: escape_char_def asc_def)

subsection \<open>Where the pattern of a token can match\<close>

declare mark_from.simps [simp del]

lemma mark_from_Nil: "t \<noteq> [] \<Longrightarrow> mark_from U t prev [] = []"
  by (simp add: mark_from.simps(1) matches_here_def)

lemma mark_from_hit:
  "t \<noteq> [] \<Longrightarrow> matches_here U t prev (c # cs) \<Longrightarrow>
   mark_from U t prev (c # cs) =
     open_tag @ take (length t) (c # cs) @ close_tag @
     mark_from U t (Some (last (take (length t) (c # cs)))) (drop (length t) (c # cs))"
  by (subst mark_from.simps(2)) (simp only: if_True if_False)

lemma mark_from_miss:
  "\<not> matches_here U t prev (c # cs) \<Longrightarrow> mark_from U t prev (c # cs) = c # mark_from U t (Some c) cs"
  by (subst mark_from.simps(2)) (simp only: if_False)

lemma matches_here_word:
  assumes "conventions U" "is_token t" "matches_here U t prev s"
  shows "length t \<le> length s \<and> list_all (re_word U) (take (length t) s)"
  using spelled_word[OF assms(1,2), of "take (length t) s"] assms(3)
  by (simp add: matches_here_def)

lemma no_match_at_nonword:
  assumes "conventions U" "is_token t" "\<not> re_word U c"
  shows "\<not> matches_here U t prev (c # s)"
proof
  assume m: "matches_here U t prev (c # s)"
  obtain x xs where t: "t = x # xs" using assms(2) by (cases t) (auto simp: is_token_def)
  have "list_all (re_word U) (take (length t) (c # s))"
    using matches_here_word[OF assms(1,2) m] by simp
  then show False using assms(3) by (simp add: t)
qed

lemma mark_from_nonword:
  assumes "conventions U" "is_token t" "\<not> re_word U c"
  shows "mark_from U t prev (c # s) = c # mark_from U t (Some c) s"
  by (rule mark_from_miss[OF no_match_at_nonword[OF assms]])

lemma matches_here_prefix:
  assumes "conventions U" "is_token t" "\<not> re_word U c"
  shows "matches_here U t prev (a @ c # b) \<longleftrightarrow> matches_here U t prev a"
proof -
  define n where "n = length t"
  have n0: "0 < n" and tne: "t \<noteq> []" using assms(2) by (simp_all add: n_def is_token_def)
  have key: "matches_here U t prev (a @ c # b) = matches_here U t prev a"
    if le: "n \<le> length a" and al: "list_all (re_word U) (take n a)"
  proof -
    have ne: "a \<noteq> []" using le n0 by auto
    have tk: "take n (a @ c # b) = take n a" using le by simp
    have hd: "hd (a @ c # b) = hd a" using ne by simp
    have tkne: "take n a \<noteq> []" using ne n0 by (cases a) auto
    have lw: "re_word U (last (take n a))"
      using al tkne by (simp add: list_all_iff)
    show ?thesis
    proof (cases "n < length a")
      case True
      then show ?thesis
        using ne tne tk hd by (simp add: matches_here_def n_def[symmetric] nth_append)
    next
      case False
      then have "n = length a" using le by simp
      then show ?thesis
        using ne tne lw assms(3) hd
        by (simp add: matches_here_def n_def[symmetric] boundary_def wordy_def)
    qed
  qed
  show ?thesis
  proof
    assume m: "matches_here U t prev (a @ c # b)"
    have al: "list_all (re_word U) (take n (a @ c # b))"
      using matches_here_word[OF assms(1,2) m] by (simp add: n_def)
    have le: "n \<le> length a"
    proof (rule ccontr)
      assume "\<not> n \<le> length a"
      then have "c \<in> set (take n (a @ c # b))" by (auto simp: take_Cons' in_set_conv_decomp)
      then show False using al assms(3) by (simp add: list_all_iff)
    qed
    then have "list_all (re_word U) (take n a)" using al by simp
    then show "matches_here U t prev a" using key[OF le] m by simp
  next
    assume m: "matches_here U t prev a"
    have "n \<le> length a \<and> list_all (re_word U) (take n a)"
      using matches_here_word[OF assms(1,2) m] by (simp add: n_def)
    then show "matches_here U t prev (a @ c # b)" using key m by simp
  qed
qed

lemma mark_from_split_aux:
  "is_token t \<Longrightarrow> conventions U \<Longrightarrow> \<not> re_word U c \<Longrightarrow>
   mark_from U t prev (a @ c # b) = mark_from U t prev a @ c # mark_from U t (Some c) b"
proof (induction U t prev a rule: mark_from.induct)
  case (1 U t prev)
  have tne: "t \<noteq> []" using "1.prems"(1) by (simp add: is_token_def)
  have "mark_from U t prev (c # b) = c # mark_from U t (Some c) b"
    by (rule mark_from_nonword[OF "1.prems"(2,1,3)])
  then show ?case using tne by (simp add: mark_from_Nil)
next
  case (2 U t prev x xs)
  note tok = "2.prems"(1) and cv = "2.prems"(2) and nw = "2.prems"(3)
  have tne: "t \<noteq> []" using tok by (simp add: is_token_def)
  have eq: "matches_here U t prev (x # xs @ c # b) = matches_here U t prev (x # xs)"
    using matches_here_prefix[OF cv tok nw, of prev "x # xs" b] by simp
  show ?case
  proof (cases "matches_here U t prev (x # xs)")
    case True
    have le: "length t \<le> length (x # xs)" using matches_here_word[OF cv tok True] by simp
    have tk: "take (length t) (x # xs @ c # b) = take (length t) (x # xs)"
      using le take_append[of "length t" "x # xs" "c # b"] by simp
    have dr: "drop (length t) (x # xs @ c # b) = drop (length t) (x # xs) @ c # b"
      using le drop_append[of "length t" "x # xs" "c # b"] by simp
    have m2: "matches_here U t prev (x # xs @ c # b)" using eq True by simp
    have l: "mark_from U t prev (x # xs @ c # b) =
          open_tag @ take (length t) (x # xs) @ close_tag @
          mark_from U t (Some (last (take (length t) (x # xs)))) (drop (length t) (x # xs) @ c # b)"
      using mark_from_hit[OF tne m2] by (simp only: tk dr)
    have r: "mark_from U t prev (x # xs) =
          open_tag @ take (length t) (x # xs) @ close_tag @
          mark_from U t (Some (last (take (length t) (x # xs)))) (drop (length t) (x # xs))"
      by (rule mark_from_hit[OF tne True])
    show ?thesis
      using "2.IH"(2)[OF True tne tok cv nw] by (simp only: append_Cons l r append_assoc)
  next
    case False
    have m2: "\<not> matches_here U t prev (x # xs @ c # b)" using eq False by simp
    have l: "mark_from U t prev (x # xs @ c # b) = x # mark_from U t (Some x) (xs @ c # b)"
      by (rule mark_from_miss[OF m2])
    have r: "mark_from U t prev (x # xs) = x # mark_from U t (Some x) xs"
      by (rule mark_from_miss[OF False])
    show ?thesis
      using "2.IH"(3)[OF False tok cv nw] by (simp only: append_Cons l r)
  qed
qed

lemma mark_from_split:
  assumes "conventions U" "is_token t" "\<not> re_word U c"
  shows "mark_from U t prev (a @ c # b) = mark_from U t prev a @ c # mark_from U t (Some c) b"
  by (rule mark_from_split_aux[OF assms(2,1,3)])

lemma mark_from_prev:
  "wordy U prev = wordy U prev' \<Longrightarrow> mark_from U t prev s = mark_from U t prev' s"
proof (cases s)
  case Nil
  assume "wordy U prev = wordy U prev'"
  then have "matches_here U t prev [] = matches_here U t prev' []"
    by (simp add: matches_here_def boundary_def)
  then show ?thesis by (simp add: Nil mark_from.simps(1))
next
  case (Cons c cs)
  assume "wordy U prev = wordy U prev'"
  then have "matches_here U t prev (c # cs) = matches_here U t prev' (c # cs)"
    by (simp add: matches_here_def boundary_def)
  then show ?thesis by (simp add: Cons mark_from.simps(2))
qed

lemma mark_from_inside_run:
  "t \<noteq> [] \<Longrightarrow> list_all (re_word U) s \<Longrightarrow> wordy U prev \<Longrightarrow> mark_from U t prev s = s"
proof (induction s arbitrary: prev)
  case Nil
  then show ?case by (simp add: mark_from_Nil)
next
  case (Cons x s)
  have wx: "wordy U (Some x)" using Cons.prems(2) by (simp add: wordy_def)
  have "\<not> matches_here U t prev (x # s)"
    using Cons.prems(3) wx by (simp add: matches_here_def boundary_def)
  then have "mark_from U t prev (x # s) = x # mark_from U t (Some x) s" by (rule mark_from_miss)
  moreover have "mark_from U t (Some x) s = s" using Cons.IH[OF Cons.prems(1) _ wx] Cons.prems(2) by simp
  ultimately show ?case by simp
qed

lemma mark_from_run:
  assumes "t \<noteq> []" "w \<noteq> []" "list_all (re_word U) w" "\<not> wordy U prev"
  shows "mark_from U t prev w =
           (if list_all2 (re_ci U) t w then open_tag @ w @ close_tag else w)"
proof -
  obtain x xs where w: "w = x # xs" using assms(2) by (cases w) auto
  have wx: "wordy U (Some x)" using assms(3) by (simp add: w wordy_def)
  have m: "matches_here U t prev w \<longleftrightarrow> list_all2 (re_ci U) t w"
  proof
    assume m: "matches_here U t prev w"
    have le: "length t \<le> length w" using m by (simp add: matches_here_def)
    have "\<not> length t < length w"
    proof
      assume lt: "length t < length w"
      have tne: "take (length t) w \<noteq> []" using assms(1,2) by (cases w; cases t) auto
      have "last (take (length t) w) \<in> set w"
        using tne by (meson in_set_takeD last_in_set)
      then have a: "wordy U (Some (last (take (length t) w)))"
        using assms(3) by (simp add: wordy_def list_all_iff)
      have "w ! length t \<in> set w" using lt by simp
      then have b: "wordy U (Some (w ! length t))"
        using assms(3) by (simp add: wordy_def list_all_iff)
      show False using m lt a b assms(1) by (simp add: matches_here_def boundary_def)
    qed
    then have "length t = length w" using le by simp
    then show "list_all2 (re_ci U) t w" using m by (simp add: matches_here_def)
  next
    assume e: "list_all2 (re_ci U) t w"
    then have len: "length t = length w" by (rule list_all2_lengthD)
    have "last w \<in> set w" using assms(2) by simp
    then have a: "wordy U (Some (last w))"
      using assms(3) by (simp add: wordy_def list_all_iff)
    show "matches_here U t prev w"
      using e assms(1,2,4) len wx a by (simp add: matches_here_def boundary_def w wordy_def)
  qed
  show ?thesis
  proof (cases "list_all2 (re_ci U) t w")
    case True
    then have len: "length t = length w" by (rule list_all2_lengthD)
    have "matches_here U t prev (x # xs)" using m True w by simp
    then have "mark_from U t prev (x # xs) =
          open_tag @ take (length t) (x # xs) @ close_tag @
          mark_from U t (Some (last (take (length t) (x # xs)))) (drop (length t) (x # xs))"
      by (rule mark_from_hit[OF assms(1)])
    then show ?thesis using True len assms(1) by (simp add: w mark_from_Nil)
  next
    case False
    then have "\<not> matches_here U t prev (x # xs)" using m w by simp
    then have "mark_from U t prev (x # xs) = x # mark_from U t (Some x) xs"
      by (rule mark_from_miss)
    moreover have "mark_from U t (Some x) xs = xs"
      using mark_from_inside_run[OF assms(1) _ wx, of xs] assms(3) by (simp add: w)
    ultimately show ?thesis using False by (simp add: w)
  qed
qed

subsection \<open>One pass of the highlighter\<close>

lemma mark_term_Nil: "t \<noteq> [] \<Longrightarrow> mark_term U t [] = []"
  by (simp add: mark_term_def mark_from_Nil)

lemma mark_term_snoc:
  assumes "conventions U" "is_token t" "\<not> re_word U c"
  shows "mark_term U t (u0 @ [c]) = mark_from U t None u0 @ [c]"
proof -
  have tne: "t \<noteq> []" using assms(2) by (simp add: is_token_def)
  have "mark_from U t None (u0 @ c # []) = mark_from U t None u0 @ c # mark_from U t (Some c) []"
    by (rule mark_from_split[OF assms])
  then show ?thesis using tne by (simp add: mark_term_def mark_from_Nil)
qed

lemma mark_term_Cons:
  assumes "conventions U" "is_token t" "\<not> re_word U d"
  shows "mark_term U t (d # v0) = d # mark_from U t (Some d) v0"
  unfolding mark_term_def by (rule mark_from_nonword[OF assms])

lemma mark_from_run_then:
  assumes "conventions U" "is_token t" "w \<noteq> []" "list_all (re_word U) w" "\<not> wordy U prev"
    "v = [] \<or> \<not> re_word U (hd v)"
  shows "mark_from U t prev (w @ v) =
           (if list_all2 (re_ci U) t w then open_tag @ w @ close_tag else w) @ mark_term U t v"
proof -
  have tne: "t \<noteq> []" using assms(2) by (simp add: is_token_def)
  show ?thesis
  proof (cases v)
    case Nil
    then show ?thesis using mark_from_run[OF tne assms(3-5)] tne by (simp add: mark_term_Nil)
  next
    case (Cons d v0)
    then have d: "\<not> re_word U d" using assms(6) by simp
    have "mark_from U t prev (w @ d # v0) = mark_from U t prev w @ d # mark_from U t (Some d) v0"
      by (rule mark_from_split[OF assms(1,2) d])
    then show ?thesis
      using mark_from_run[OF tne assms(3-5)] mark_term_Cons[OF assms(1,2) d, of v0] Cons by simp
  qed
qed

lemma mark_term_around:
  assumes "conventions U" "is_token t" "w \<noteq> []" "list_all (re_word U) w"
    "u = [] \<or> \<not> re_word U (last u)" "v = [] \<or> \<not> re_word U (hd v)"
  shows "mark_term U t (u @ w @ v) =
           mark_term U t u @
           (if list_all2 (re_ci U) t w then open_tag @ w @ close_tag else w) @ mark_term U t v"
proof (cases "u = []")
  case True
  have tne: "t \<noteq> []" using assms(2) by (simp add: is_token_def)
  have "mark_from U t None (w @ v) =
      (if list_all2 (re_ci U) t w then open_tag @ w @ close_tag else w) @ mark_term U t v"
    by (rule mark_from_run_then[OF assms(1-4) _ assms(6)]) (simp add: wordy_def)
  then show ?thesis using True tne by (simp add: mark_term_def mark_from_Nil)
next
  case False
  define c where "c = last u"
  define u0 where "u0 = butlast u"
  have u: "u = u0 @ [c]" using False by (simp add: c_def u0_def)
  have c: "\<not> re_word U c" using assms(5) False by (simp add: c_def)
  have m: "mark_from U t (Some c) (w @ v) =
      (if list_all2 (re_ci U) t w then open_tag @ w @ close_tag else w) @ mark_term U t v"
    by (rule mark_from_run_then[OF assms(1-4) _ assms(6)]) (simp add: wordy_def c)
  have "mark_from U t None (u0 @ c # (w @ v)) =
        mark_from U t None u0 @ c # mark_from U t (Some c) (w @ v)"
    by (rule mark_from_split[OF assms(1,2) c])
  then have "mark_term U t (u @ w @ v) =
      (mark_from U t None u0 @ [c]) @
      (if list_all2 (re_ci U) t w then open_tag @ w @ close_tag else w) @ mark_term U t v"
    unfolding m by (simp add: mark_term_def u)
  then show ?thesis unfolding u mark_term_snoc[OF assms(1,2) c] .
qed

lemma mark_term_last:
  assumes "conventions U" "is_token t" "u = [] \<or> \<not> re_word U (last u)"
  shows "mark_term U t u = [] \<or> \<not> re_word U (last (mark_term U t u))"
proof (cases "u = []")
  case True
  then show ?thesis using assms(2) by (simp add: mark_term_Nil is_token_def)
next
  case False
  then have u: "u = butlast u @ [last u]" by simp
  have c: "\<not> re_word U (last u)" using assms(3) False by simp
  have "mark_term U t (butlast u @ [last u]) = mark_from U t None (butlast u) @ [last u]"
    by (rule mark_term_snoc[OF assms(1,2) c])
  then have "last (mark_term U t u) = last u" using u by simp
  then show ?thesis using c by simp
qed

lemma mark_term_hd:
  assumes "conventions U" "is_token t" "v = [] \<or> \<not> re_word U (hd v)"
  shows "mark_term U t v = [] \<or> \<not> re_word U (hd (mark_term U t v))"
proof (cases v)
  case Nil
  then show ?thesis using assms(2) by (simp add: mark_term_Nil is_token_def)
next
  case (Cons d v0)
  then have d: "\<not> re_word U d" using assms(3) by simp
  show ?thesis unfolding Cons mark_term_Cons[OF assms(1,2) d] using d by simp
qed

lemma open_tag_eq: "open_tag = 60 # (asc ''mark'' @ [62])"
  by (simp add: open_tag_def asc_def)

lemma close_tag_eq: "close_tag = 60 # 47 # (asc ''mark'' @ [62])"
  by (simp add: close_tag_def asc_def)

lemma mark_word: "conventions U \<Longrightarrow> list_all (re_word U) (asc ''mark'')"
  using conv_word[of U] by (simp add: asc_def is_word_def is_alnum_def)

lemma mark_spelled:
  assumes "conventions U" "is_token t" "list_all2 (re_ci U) t (asc ''mark'')"
  shows "t = asc ''mark''"
proof -
  have a: "asc ''mark'' = [109, 97, 114, 107]" by (simp add: asc_def)
  obtain p q r s where t: "t = [p, q, r, s]"
    and ci: "re_ci U p 109" "re_ci U q 97" "re_ci U r 114" "re_ci U s 107"
    using assms(3) unfolding a by (auto simp: list_all2_Cons2)
  have al: "is_lower_alnum p" "is_lower_alnum q" "is_lower_alnum r" "is_lower_alnum s"
    using assms(2) by (simp_all add: is_token_def t)
  have "p = 109" using conv_ci_ascii[OF assms(1) al(1), of 109] ci(1) by (simp add: lower_char_def)
  moreover have "q = 97" using conv_ci_ascii[OF assms(1) al(2), of 97] ci(2) by (simp add: lower_char_def)
  moreover have "r = 114" using conv_ci_ascii[OF assms(1) al(3), of 114] ci(3) by (simp add: lower_char_def)
  moreover have "s = 107" using conv_ci_ascii[OF assms(1) al(4), of 107] ci(4) by (simp add: lower_char_def)
  ultimately show ?thesis by (simp add: t a)
qed

lemma mark_term_tagged:
  assumes "conventions U" "is_token t" "t \<noteq> asc ''mark''" "w \<noteq> []" "list_all (re_word U) w"
    "\<not> list_all2 (re_ci U) t w"
  shows "mark_term U t (u @ open_tag @ w @ close_tag @ v) =
           mark_term U t u @ open_tag @ w @ close_tag @ mark_term U t v"
proof -
  define M where "M = asc ''mark''"
  have tne: "t \<noteq> []" using assms(2) by (simp add: is_token_def)
  have tc: "\<not> re_word U 60" "\<not> re_word U 62" "\<not> re_word U 47"
    using escaped_not_word[OF assms(1)] by simp_all
  have nl: "\<not> wordy U (Some 60)" "\<not> wordy U (Some 62)" "\<not> wordy U (Some 47)"
    using tc by (simp_all add: wordy_def)
  have Mne: "M \<noteq> []" by (simp add: M_def asc_def)
  have nm: "\<not> list_all2 (re_ci U) t M"
    using mark_spelled[OF assms(1,2)] assms(3) unfolding M_def by blast
  have m: "mark_from U t p M = M" if "\<not> wordy U p" for p
    using mark_from_run[OF tne Mne _ that] mark_word[OF assms(1)] nm unfolding M_def by simp
  have ww: "mark_from U t p w = w" if "\<not> wordy U p" for p
    using mark_from_run[OF tne assms(4,5) that] assms(6) by simp
  have s1: "mark_from U t None (u @ 60 # (M @ 62 # (w @ 60 # 47 # (M @ 62 # v)))) =
        mark_from U t None u @ 60 #
          mark_from U t (Some 60) (M @ 62 # (w @ 60 # 47 # (M @ 62 # v)))"
    by (rule mark_from_split[OF assms(1,2) tc(1)])
  have s2: "mark_from U t (Some 60) (M @ 62 # (w @ 60 # 47 # (M @ 62 # v))) =
        mark_from U t (Some 60) M @ 62 #
          mark_from U t (Some 62) (w @ 60 # 47 # (M @ 62 # v))"
    by (rule mark_from_split[OF assms(1,2) tc(2)])
  have s3: "mark_from U t (Some 62) (w @ 60 # 47 # (M @ 62 # v)) =
        mark_from U t (Some 62) w @ 60 #
          mark_from U t (Some 60) (47 # (M @ 62 # v))"
    by (rule mark_from_split[OF assms(1,2) tc(1)])
  have s4: "mark_from U t (Some 60) (47 # (M @ 62 # v)) =
        47 # mark_from U t (Some 47) (M @ 62 # v)"
    by (rule mark_from_nonword[OF assms(1,2) tc(3)])
  have s5: "mark_from U t (Some 47) (M @ 62 # v) =
        mark_from U t (Some 47) M @ 62 # mark_from U t (Some 62) v"
    by (rule mark_from_split[OF assms(1,2) tc(2)])
  have s6: "mark_from U t (Some 62) v = mark_from U t None v"
    by (rule mark_from_prev) (simp add: wordy_def tc)
  have e: "u @ open_tag @ w @ close_tag @ v =
        u @ 60 # (M @ 62 # (w @ 60 # 47 # (M @ 62 # v)))"
    by (simp add: open_tag_eq close_tag_eq M_def)
  have "mark_from U t None (u @ open_tag @ w @ close_tag @ v) =
        mark_from U t None u @ 60 # (M @ 62 # (w @ 60 # 47 # (M @ 62 # mark_from U t None v)))"
    unfolding e s1 s2 s3 s4 s5 s6 m[OF nl(1)] m[OF nl(3)] ww[OF nl(2)] by (rule refl)
  then show ?thesis by (simp add: mark_term_def open_tag_eq close_tag_eq M_def)
qed

subsection \<open>All passes\<close>

lemma fold_mark_term_last:
  assumes "conventions U"
  shows "\<forall>t\<in>set ts. is_token t \<Longrightarrow> u = [] \<or> \<not> re_word U (last u) \<Longrightarrow>
         fold (mark_term U) ts u = [] \<or> \<not> re_word U (last (fold (mark_term U) ts u))"
proof (induction ts arbitrary: u)
  case Nil
  then show ?case by simp
next
  case (Cons t ts)
  have "mark_term U t u = [] \<or> \<not> re_word U (last (mark_term U t u))"
    using mark_term_last[OF assms _ Cons.prems(2)] Cons.prems(1) by simp
  then show ?case using Cons.IH[of "mark_term U t u"] Cons.prems(1) by simp
qed

lemma fold_mark_term_hd:
  assumes "conventions U"
  shows "\<forall>t\<in>set ts. is_token t \<Longrightarrow> v = [] \<or> \<not> re_word U (hd v) \<Longrightarrow>
         fold (mark_term U) ts v = [] \<or> \<not> re_word U (hd (fold (mark_term U) ts v))"
proof (induction ts arbitrary: v)
  case Nil
  then show ?case by simp
next
  case (Cons t ts)
  have "mark_term U t v = [] \<or> \<not> re_word U (hd (mark_term U t v))"
    using mark_term_hd[OF assms _ Cons.prems(2)] Cons.prems(1) by simp
  then show ?case using Cons.IH[of "mark_term U t v"] Cons.prems(1) by simp
qed

lemma fold_tagged:
  assumes "conventions U" "w \<noteq> []" "list_all (re_word U) w"
  shows "\<forall>t\<in>set ts. is_token t \<and> t \<noteq> asc ''mark'' \<and> \<not> list_all2 (re_ci U) t w \<Longrightarrow>
         fold (mark_term U) ts (u @ open_tag @ w @ close_tag @ v) =
           fold (mark_term U) ts u @ open_tag @ w @ close_tag @ fold (mark_term U) ts v"
proof (induction ts arbitrary: u v)
  case Nil
  then show ?case by simp
next
  case (Cons t ts)
  have "mark_term U t (u @ open_tag @ w @ close_tag @ v) =
        mark_term U t u @ open_tag @ w @ close_tag @ mark_term U t v"
    using mark_term_tagged[OF assms(1) _ _ assms(2,3), of t u v] Cons.prems by simp
  then show ?case using Cons.IH[of "mark_term U t u" "mark_term U t v"] Cons.prems by simp
qed

lemma fold_whole_token:
  assumes "conventions U" "is_token t0" "list_all2 (re_ci U) t0 w"
  shows "distinct ts \<Longrightarrow> \<forall>t\<in>set ts. is_token t \<and> t \<noteq> asc ''mark'' \<Longrightarrow> t0 \<in> set ts \<Longrightarrow>
         u = [] \<or> \<not> re_word U (last u) \<Longrightarrow> v = [] \<or> \<not> re_word U (hd v) \<Longrightarrow>
         fold (mark_term U) ts (u @ w @ v) =
           fold (mark_term U) ts u @ open_tag @ w @ close_tag @ fold (mark_term U) ts v"
proof (induction ts arbitrary: u v)
  case Nil
  then show ?case by simp
next
  case (Cons t ts)
  have w: "w \<noteq> []" "list_all (re_word U) w" using spelled_word[OF assms] by simp_all
  have tok: "is_token t" using Cons.prems(2) by simp
  have s: "mark_term U t (u @ w @ v) =
       mark_term U t u @ (if list_all2 (re_ci U) t w then open_tag @ w @ close_tag else w) @
       mark_term U t v"
    by (rule mark_term_around[OF assms(1) tok w Cons.prems(4,5)])
  show ?case
  proof (cases "list_all2 (re_ci U) t w")
    case True
    have tt: "t = t0" by (rule spelled_unique[OF assms(1) tok assms(2) True assms(3)])
    have "\<not> list_all2 (re_ci U) t' w" if "t' \<in> set ts" for t'
    proof
      assume "list_all2 (re_ci U) t' w"
      moreover have "is_token t'" using that Cons.prems(2) by simp
      ultimately have "t' = t0" using spelled_unique[OF assms(1) _ assms(2) _ assms(3)] by blast
      then show False using that tt Cons.prems(1) by simp
    qed
    then have "\<forall>t'\<in>set ts. is_token t' \<and> t' \<noteq> asc ''mark'' \<and> \<not> list_all2 (re_ci U) t' w"
      using Cons.prems(2) by simp
    then show ?thesis
      using fold_tagged[OF assms(1) w, of ts "mark_term U t u" "mark_term U t v"] s True by simp
  next
    case False
    then have "t \<noteq> t0" using assms(3) by blast
    then have in': "t0 \<in> set ts" using Cons.prems(3) by auto
    have f: "mark_term U t u = [] \<or> \<not> re_word U (last (mark_term U t u))"
      "mark_term U t v = [] \<or> \<not> re_word U (hd (mark_term U t v))"
      using mark_term_last[OF assms(1) tok Cons.prems(4)] mark_term_hd[OF assms(1) tok Cons.prems(5)]
      by blast+
    show ?thesis
      using Cons.IH[OF _ _ in' f] Cons.prems(1,2) s False by simp
  qed
qed

subsection \<open>Escaping\<close>

lemma html_escape_append: "html_escape (a @ b) = html_escape a @ html_escape b"
  by (simp add: html_escape_def)

lemma html_escape_Nil: "html_escape [] = []"
  by (simp add: html_escape_def)

lemma html_escape_Cons: "html_escape (c # s) = escape_char c @ html_escape s"
  by (simp add: html_escape_def)

lemma html_escape_word: "conventions U \<Longrightarrow> list_all (re_word U) w \<Longrightarrow> html_escape w = w"
  by (induction w) (simp_all add: html_escape_Nil html_escape_Cons word_not_escaped)

lemma html_escape_last:
  assumes "conventions U" "a = [] \<or> \<not> re_word U (last a)"
  shows "html_escape a = [] \<or> \<not> re_word U (last (html_escape a))"
proof (cases "a = []")
  case True
  then show ?thesis by (simp add: html_escape_Nil)
next
  case False
  then have "a = butlast a @ [last a]" by simp
  then have "html_escape a = html_escape (butlast a) @ html_escape [last a]"
    using html_escape_append[of "butlast a" "[last a]"] by simp
  then have "html_escape a = html_escape (butlast a) @ escape_char (last a)"
    by (simp add: html_escape_Cons html_escape_Nil)
  then show ?thesis using escape_char_ends[OF assms(1), of "last a"] assms(2) False by simp
qed

lemma html_escape_hd:
  assumes "conventions U" "b = [] \<or> \<not> re_word U (hd b)"
  shows "html_escape b = [] \<or> \<not> re_word U (hd (html_escape b))"
proof (cases b)
  case Nil
  then show ?thesis by (simp add: html_escape_Nil)
next
  case (Cons d b0)
  then show ?thesis
    using escape_char_ends[OF assms(1), of d] assms(2) by (simp add: html_escape_Cons)
qed

lemma length_html_escape: "length s \<le> length (html_escape s)"
proof (induction s)
  case Nil
  then show ?case by (simp add: html_escape_Nil)
next
  case (Cons c s)
  then show ?case using length_escape_char[of c] by (simp add: html_escape_Cons)
qed

lemma length_mark_from: "length s \<le> length (mark_from U t prev s)"
proof (induction U t prev s rule: mark_from.induct)
  case (1 U t prev)
  then show ?case by simp
next
  case (2 U t prev c cs)
  show ?case
  proof (cases "matches_here U t prev (c # cs)")
    case True
    show ?thesis
    proof (cases "t = []")
      case e: True
      have "mark_from U t prev (c # cs) = open_tag @ close_tag @ c # mark_from U t (Some c) cs"
        using True e by (subst mark_from.simps(2)) simp
      then show ?thesis using "2.IH"(1)[OF True e] by simp
    next
      case ne: False
      have "length (c # cs) = length (take (length t) (c # cs)) + length (drop (length t) (c # cs))"
        by (simp only: length_append[symmetric] append_take_drop_id)
      moreover have "length (drop (length t) (c # cs)) \<le>
          length (mark_from U t (Some (last (take (length t) (c # cs)))) (drop (length t) (c # cs)))"
        by (rule "2.IH"(2)[OF True ne])
      moreover note mark_from_hit[OF ne True]
      ultimately show ?thesis by (simp only: length_append)
    qed
  next
    case False
    show ?thesis unfolding mark_from_miss[OF False] using "2.IH"(3)[OF False] by simp
  qed
qed

lemma length_highlight: "length s \<le> length (highlight U terms s)"
proof -
  have "length s \<le> length (fold (mark_term U) ts s)" for ts
  proof (induction ts arbitrary: s)
    case Nil
    then show ?case by simp
  next
    case (Cons t ts)
    have "length s \<le> length (mark_term U t s)" by (simp add: mark_term_def length_mark_from)
    then show ?case using Cons[of "mark_term U t s"] by simp
  qed
  then show ?thesis by (simp add: highlight_def)
qed

subsection \<open>The order of the terms\<close>

lemma highlight_order_set: "conventions U \<Longrightarrow> set (highlight_order U terms) = set terms"
  by (simp add: highlight_order_def conv_set_iter)

lemma highlight_order_distinct: "conventions U \<Longrightarrow> distinct (highlight_order U terms)"
  by (simp add: highlight_order_def conv_set_iter)

lemma highlight_order_longest_first:
  "sorted_wrt (\<lambda>a b. length b \<le> length a) (highlight_order U terms)"
proof -
  have "sorted (map (\<lambda>t. - int (length t)) (highlight_order U terms))"
    by (simp add: highlight_order_def)
  then show ?thesis by (simp add: sorted_map)
qed

subsection \<open>Whole tokens of the window\<close>

lemma token_at_split:
  assumes "token_at U t s p"
  shows "s = take p s @ take (length t) (drop p s) @ drop (p + length t) s \<and>
         list_all2 (re_ci U) t (take (length t) (drop p s)) \<and>
         (take p s = [] \<or> \<not> re_word U (last (take p s))) \<and>
         (drop (p + length t) s = [] \<or> \<not> re_word U (hd (drop (p + length t) s)))"
proof -
  have le: "p + length t \<le> length s"
    and b1: "p = 0 \<or> \<not> re_word U (s ! (p - 1))"
    and b2: "p + length t = length s \<or> \<not> re_word U (s ! (p + length t))"
    using assms by (simp_all add: token_at_def)
  have s: "s = take p s @ take (length t) (drop p s) @ drop (p + length t) s"
    by (metis add.commute append_take_drop_id drop_drop)
  have u: "take p s = [] \<or> \<not> re_word U (last (take p s))"
  proof (cases "p = 0")
    case True
    then show ?thesis by simp
  next
    case False
    then have "take p s \<noteq> []" using le by auto
    moreover have "length (take p s) = p" using le by simp
    ultimately have "last (take p s) = take p s ! (p - 1)" by (metis last_conv_nth)
    then have "last (take p s) = s ! (p - 1)" using False by simp
    then show ?thesis using b1 False by simp
  qed
  have v: "drop (p + length t) s = [] \<or> \<not> re_word U (hd (drop (p + length t) s))"
  proof (cases "p + length t = length s")
    case True
    then show ?thesis by simp
  next
    case False
    then have "hd (drop (p + length t) s) = s ! (p + length t)" using le by (simp add: hd_drop_conv_nth)
    then show ?thesis using b2 False by simp
  qed
  show ?thesis using s u v assms by (simp add: token_at_def)
qed

lemma highlighted_token:
  assumes "conventions U" "\<forall>t\<in>set terms. is_token t" "asc ''mark'' \<notin> set terms"
    "t \<in> set terms" "token_at U t s p"
  shows "highlight U terms (html_escape s) =
           highlight U terms (html_escape (take p s)) @
           open_tag @ take (length t) (drop p s) @ close_tag @
           highlight U terms (html_escape (drop (p + length t) s))"
proof -
  define w where "w = take (length t) (drop p s)"
  define u where "u = take p s"
  define v where "v = drop (p + length t) s"
  have tok: "is_token t" using assms(2,4) by simp
  have sp: "s = u @ w @ v" and ci: "list_all2 (re_ci U) t w"
    and fu: "u = [] \<or> \<not> re_word U (last u)" and fv: "v = [] \<or> \<not> re_word U (hd v)"
    using token_at_split[OF assms(5)] unfolding w_def u_def v_def by blast+
  have ww: "list_all (re_word U) w" using spelled_word[OF assms(1) tok ci] by simp
  have e: "html_escape s = html_escape u @ w @ html_escape v"
    by (subst sp) (simp add: html_escape_append html_escape_word[OF assms(1) ww])
  have a: "\<forall>t\<in>set (highlight_order U terms). is_token t \<and> t \<noteq> asc ''mark''"
    using assms(1,2,3) by (auto simp: highlight_order_set)
  have b: "t \<in> set (highlight_order U terms)" using assms(1,4) by (simp add: highlight_order_set)
  have "fold (mark_term U) (highlight_order U terms) (html_escape u @ w @ html_escape v) =
        fold (mark_term U) (highlight_order U terms) (html_escape u) @ open_tag @ w @ close_tag @
        fold (mark_term U) (highlight_order U terms) (html_escape v)"
    by (rule fold_whole_token[OF assms(1) tok ci highlight_order_distinct[OF assms(1)] a b
          html_escape_last[OF assms(1) fu] html_escape_hd[OF assms(1) fv]])
  then show ?thesis unfolding highlight_def e w_def u_def v_def .
qed

subsection \<open>Finding a substring\<close>

lemma occurs_at_0: "occurs_at t s 0 \<longleftrightarrow> take (length t) s = t"
proof -
  have "take (length t) s = t \<Longrightarrow> length t \<le> length s"
    by (metis length_take min.cobounded1)
  then show ?thesis by (auto simp: occurs_at_def)
qed

lemma occurs_at_Suc: "occurs_at t (c # s) (Suc p) \<longleftrightarrow> occurs_at t s p"
  by (simp add: occurs_at_def)

lemma occurs_at_Nil: "occurs_at t [] p \<longleftrightarrow> t = [] \<and> p = 0"
  by (auto simp: occurs_at_def)

lemma find_sub_Cons_hit: "take (length t) (c # s) = t \<Longrightarrow> find_sub t (c # s) = Some 0"
  by (simp only: find_sub.simps if_P)

lemma find_sub_Cons_miss:
  "take (length t) (c # s) \<noteq> t \<Longrightarrow> find_sub t (c # s) = map_option Suc (find_sub t s)"
  by simp

lemma find_sub_Some:
  "find_sub t s = Some p \<longleftrightarrow> occurs_at t s p \<and> (\<forall>q<p. \<not> occurs_at t s q)"
proof (induction s arbitrary: p)
  case Nil
  then show ?case by (auto simp: occurs_at_Nil)
next
  case (Cons c s)
  show ?case
  proof (cases "take (length t) (c # s) = t")
    case True
    then have o: "occurs_at t (c # s) 0" by (simp only: occurs_at_0)
    have f: "find_sub t (c # s) = Some 0" by (rule find_sub_Cons_hit[OF True])
    show ?thesis
    proof (cases p)
      case 0
      then show ?thesis using o f by simp
    next
      case (Suc p')
      then show ?thesis using o f by auto
    qed
  next
    case False
    have n0: "\<not> occurs_at t (c # s) 0" unfolding occurs_at_0 by (rule False)
    have f: "find_sub t (c # s) = map_option Suc (find_sub t s)"
      by (rule find_sub_Cons_miss[OF False])
    show ?thesis
    proof (cases p)
      case 0
      then show ?thesis using n0 f by auto
    next
      case (Suc p')
      have a: "(\<forall>q<Suc p'. \<not> occurs_at t (c # s) q) \<longleftrightarrow> (\<forall>q<p'. \<not> occurs_at t s q)"
      proof
        assume h: "\<forall>q<Suc p'. \<not> occurs_at t (c # s) q"
        show "\<forall>q<p'. \<not> occurs_at t s q"
        proof (intro allI impI)
          fix q assume "q < p'"
          then have "\<not> occurs_at t (c # s) (Suc q)" using h by simp
          then show "\<not> occurs_at t s q" by (simp add: occurs_at_Suc)
        qed
      next
        assume h: "\<forall>q<p'. \<not> occurs_at t s q"
        show "\<forall>q<Suc p'. \<not> occurs_at t (c # s) q"
        proof (intro allI impI)
          fix q assume q: "q < Suc p'"
          show "\<not> occurs_at t (c # s) q"
          proof (cases q)
            case 0
            then show ?thesis using n0 by simp
          next
            case (Suc q')
            then have "\<not> occurs_at t s q'" using h q by simp
            then show ?thesis unfolding Suc by (simp add: occurs_at_Suc)
          qed
        qed
      qed
      have b: "find_sub t (c # s) = Some (Suc p') \<longleftrightarrow> find_sub t s = Some p'"
        unfolding f by (cases "find_sub t s") simp_all
      show ?thesis unfolding Suc b a occurs_at_Suc by (rule Cons.IH)
    qed
  qed
qed

lemma find_sub_None: "find_sub t s = None \<longleftrightarrow> (\<forall>p. \<not> occurs_at t s p)"
proof
  assume n: "find_sub t s = None"
  show "\<forall>p. \<not> occurs_at t s p"
  proof (rule ccontr)
    assume "\<not> (\<forall>p. \<not> occurs_at t s p)"
    then have ex: "\<exists>p. occurs_at t s p" by blast
    define m where "m = (LEAST p. occurs_at t s p)"
    have a: "occurs_at t s m" unfolding m_def by (rule LeastI_ex[OF ex])
    have b: "\<not> occurs_at t s q" if "q < m" for q
      using that unfolding m_def by (rule not_less_Least)
    have "find_sub t s = Some m" unfolding find_sub_Some using a b by blast
    then show False using n by simp
  qed
next
  assume h: "\<forall>p. \<not> occurs_at t s p"
  show "find_sub t s = None"
  proof (cases "find_sub t s")
    case None
    then show ?thesis .
  next
    case (Some p)
    then have "occurs_at t s p" unfolding find_sub_Some by blast
    then show ?thesis using h by blast
  qed
qed

lemma occurs_at_append: "occurs_at w (u @ w @ v) (length u)"
  by (simp add: occurs_at_def)

lemma occurs_at_split:
  assumes "occurs_at t s p"
  shows "s = take p s @ t @ drop (length t) (drop p s)"
proof -
  have "s = take p s @ take (length t) (drop p s) @ drop (length t) (drop p s)"
    by (simp only: append_take_drop_id)
  then show ?thesis using assms by (simp add: occurs_at_def)
qed

subsection \<open>The first hit\<close>

lemma min_list_in: "xs \<noteq> [] \<Longrightarrow> min_list xs \<in> set xs \<and> (\<forall>x\<in>set xs. min_list xs \<le> x)"
  for xs :: "nat list"
  by (simp add: min_list_Min)

lemma set_map_filter: "set (List.map_filter f xs) = {y. \<exists>x\<in>set xs. f x = Some y}"
  by (induction xs) (auto simp: List.map_filter_simps split: option.splits)

text \<open>
  \<^verbatim>\<open>first_hit_span\<close> is the least offset at which a term occurs in the lowered text, and
  0 when none occurs there.
\<close>

lemma first_hit_span_none:
  assumes "\<forall>p. \<not> (\<exists>t\<in>set terms. occurs_at t (str_lower U text) p)"
  shows "first_hit_span U text terms = 0"
proof -
  have "set (List.map_filter (\<lambda>t. find_sub t (str_lower U text)) terms) = {}"
    using assms by (auto simp: set_map_filter find_sub_Some)
  then have "List.map_filter (\<lambda>t. find_sub t (str_lower U text)) terms = []" by simp
  then show ?thesis by (simp add: first_hit_span_def)
qed

lemma first_hit_span_least:
  assumes "\<exists>t\<in>set terms. occurs_at t (str_lower U text) p"
  shows "(\<exists>t\<in>set terms. occurs_at t (str_lower U text) (first_hit_span U text terms)) \<and>
         (\<forall>q<first_hit_span U text terms. \<not> (\<exists>t\<in>set terms. occurs_at t (str_lower U text) q))"
proof -
  define low where "low = str_lower U text"
  define ps where "ps = List.map_filter (\<lambda>t. find_sub t low) terms"
  obtain t where t: "t \<in> set terms" "occurs_at t low p"
    using assms unfolding low_def by blast
  then obtain p0 where "find_sub t low = Some p0"
    using find_sub_None[of t low] by auto
  then have "p0 \<in> set ps" using t(1) unfolding ps_def by (auto simp: set_map_filter)
  then have ne: "ps \<noteq> []" by auto
  have m: "min_list ps \<in> set ps" "\<forall>x\<in>set ps. min_list ps \<le> x" using min_list_in[OF ne] by auto
  have f: "first_hit_span U text terms = min_list ps"
    using ne by (simp add: first_hit_span_def ps_def low_def)
  obtain t1 where t1: "t1 \<in> set terms" "find_sub t1 low = Some (min_list ps)"
    using m(1) unfolding ps_def by (auto simp: set_map_filter)
  have a: "\<exists>t\<in>set terms. occurs_at t low (min_list ps)"
    using t1 find_sub_Some[of t1 low "min_list ps"] by blast
  have b: "\<not> (\<exists>t\<in>set terms. occurs_at t low q)" if "q < min_list ps" for q
  proof
    assume "\<exists>t\<in>set terms. occurs_at t low q"
    then obtain t2 where t2: "t2 \<in> set terms" "occurs_at t2 low q" by blast
    then obtain q0 where q0: "find_sub t2 low = Some q0"
      using find_sub_None[of t2 low] by auto
    then have "\<forall>q'<q0. \<not> occurs_at t2 low q'" by (simp add: find_sub_Some)
    then have "q0 \<le> q" using t2(2) by (meson not_le_imp_less)
    moreover have "q0 \<in> set ps" using q0 t2(1) unfolding ps_def by (auto simp: set_map_filter)
    ultimately show False using m(2) that by fastforce
  qed
  show ?thesis unfolding f low_def[symmetric] using a b by blast
qed

lemma first_hit_span_le: "first_hit_span U text terms \<le> length (str_lower U text)"
proof (cases "\<exists>p. \<exists>t\<in>set terms. occurs_at t (str_lower U text) p")
  case True
  then have "\<exists>t\<in>set terms. occurs_at t (str_lower U text) (first_hit_span U text terms)"
    using first_hit_span_least by blast
  then show ?thesis by (auto simp: occurs_at_def)
next
  case False
  then show ?thesis by (simp add: first_hit_span_none)
qed

lemma ci_occurs_at_lower:
  "ascii_lower t = t \<Longrightarrow> ci_occurs_at t text p \<longleftrightarrow> occurs_at t (ascii_lower text) p"
  by (simp add: ci_occurs_at_def occurs_at_def ascii_lower_def take_map drop_map)

lemma hit_at_lower:
  assumes "\<forall>t\<in>set terms. ascii_lower t = t"
  shows "hit_at text terms p \<longleftrightarrow> (\<exists>t\<in>set terms. occurs_at t (ascii_lower text) p)"
  using assms by (auto simp: hit_at_def list_ex_iff ci_occurs_at_lower)

lemma make_snippet_window:
  "make_snippet U text terms width =
     lead U text terms width @ highlight U terms (html_escape (window U text terms width)) @
     trail U text terms width"
  by (simp add: make_snippet_def window_def window_start_def window_end_def lead_def trail_def
      Let_def)

lemma length_window: "length (window U text terms width) \<le> width"
  by (simp add: window_def window_end_def)

lemma window_arith:
  fixes pos q w len :: nat
  assumes "pos \<le> len"
  shows "pos - q \<le> pos \<and> pos - (pos - q) = min pos q \<and> pos - q \<le> min len (pos - q + w) \<and>
         min len (pos - q + w) \<le> len \<and> min len (pos - q + w) - (pos - q) = min w (len - (pos - q)) \<and>
         min len (pos - q + w) - (pos - q) \<le> w"
  using assms by (simp add: min_def) arith

lemma window_facts:
  assumes "first_hit_span U text terms \<le> length text"
  shows "window_start U text terms width \<le> first_hit_span U text terms \<and>
   first_hit_span U text terms - window_start U text terms width =
     min (first_hit_span U text terms) (width div 4) \<and>
   window_start U text terms width \<le> window_end U text terms width \<and>
   window_end U text terms width \<le> length text \<and>
   length (window U text terms width) = min width (length text - window_start U text terms width) \<and>
   length (window U text terms width) \<le> width"
proof -
  have l: "length (window U text terms width) =
           window_end U text terms width - window_start U text terms width"
    using assms by (simp add: window_def window_end_def window_start_def)
  show ?thesis
    unfolding l unfolding window_start_def window_end_def window_start_def
    by (rule window_arith[OF assms])
qed

text \<open>
  On a text of ASCII characters, where \<^verbatim>\<open>text.lower()\<close> keeps every offset, the window
  is placed as the specification says: \<^verbatim>\<open>first_hit_span\<close> is the least offset at which
  some term occurs in the text, whatever the case of the letters, and 0 when none
  occurs; the window begins \<open>width div 4\<close> characters before that offset, or at the
  beginning of the text, and spans \<open>width\<close> characters or what is left of the text.
\<close>

lemma snippet_window_ascii:
  assumes "conventions U" "is_ascii text" "\<forall>t\<in>set terms. ascii_lower t = t"
  shows "(if \<exists>p. hit_at text terms p
          then hit_at text terms (first_hit_span U text terms) \<and>
               (\<forall>q<first_hit_span U text terms. \<not> hit_at text terms q)
          else first_hit_span U text terms = 0) \<and>
         window_start U text terms width \<le> first_hit_span U text terms \<and>
         first_hit_span U text terms - window_start U text terms width =
           min (first_hit_span U text terms) (width div 4) \<and>
         window_start U text terms width \<le> window_end U text terms width \<and>
         window_end U text terms width \<le> length text \<and>
         length (window U text terms width) = min width (length text - window_start U text terms width)"
proof -
  have low: "str_lower U text = ascii_lower text" by (rule conv_lower[OF assms(1,2)])
  have a: "if \<exists>p. hit_at text terms p
          then hit_at text terms (first_hit_span U text terms) \<and>
               (\<forall>q<first_hit_span U text terms. \<not> hit_at text terms q)
          else first_hit_span U text terms = 0"
  proof (cases "\<exists>p. hit_at text terms p")
    case True
    then obtain p where "\<exists>t\<in>set terms. occurs_at t (str_lower U text) p"
      using hit_at_lower[OF assms(3)] low by auto
    then show ?thesis
      using True first_hit_span_least[of terms U "text" p] hit_at_lower[OF assms(3), of "text"] low
      by simp
  next
    case False
    then have "\<forall>p. \<not> (\<exists>t\<in>set terms. occurs_at t (str_lower U text) p)"
      using hit_at_lower[OF assms(3), of "text"] low by simp
    then show ?thesis using False first_hit_span_none by simp
  qed
  have "first_hit_span U text terms \<le> length text"
    using first_hit_span_le[of U "text" terms] low by (simp add: ascii_lower_def)
  then show ?thesis using a window_facts[of U "text" terms width] by simp
qed

subsection \<open>The runtime to compute with\<close>

lemma latin_runtime_lower_ascii: "is_ascii s \<Longrightarrow> str_lower latin_runtime s = ascii_lower s"
  by (induction s)
     (simp_all add: latin_runtime_def is_ascii_def ascii_lower_def full_lower_def simple_lower_def
        lower_char_def)

lemma latin_runtime_conventions: "conventions latin_runtime"
proof -
  have 1: "\<forall>c. c < 128 \<longrightarrow> re_word latin_runtime c = is_word c"
    by (auto simp: latin_runtime_def latin1_word_def)
  have 2: "\<forall>p c. is_lower_alnum p \<and> re_ci latin_runtime p c \<longrightarrow> re_word latin_runtime c"
    by (auto simp: latin_runtime_def is_lower_alnum_def simple_lower_def is_word_def is_alnum_def
        split: if_splits)
  have 3: "\<forall>p q c. is_lower_alnum p \<and> is_lower_alnum q \<and> re_ci latin_runtime p c \<and>
        re_ci latin_runtime q c \<longrightarrow> p = q"
    by (auto simp: latin_runtime_def is_lower_alnum_def simple_lower_def split: if_splits)
  have 4: "\<forall>p c. is_lower_alnum p \<and> c < 128 \<longrightarrow> re_ci latin_runtime p c = (lower_char c = p)"
    by (auto simp: latin_runtime_def is_lower_alnum_def simple_lower_def lower_char_def
        split: if_splits)
  have 5: "\<forall>s. is_ascii s \<longrightarrow> str_lower latin_runtime s = ascii_lower s"
    using latin_runtime_lower_ascii by blast
  have 6: "\<forall>ts. distinct (set_iter latin_runtime ts) \<and> set (set_iter latin_runtime ts) = set ts"
    by (simp add: latin_runtime_def)
  show ?thesis unfolding conventions_def using 1 2 3 4 5 6 by blast
qed

subsection \<open>Evaluation on concrete file systems\<close>

lemmas char_defs = asc_def is_alnum_def is_word_def ascii_lower_def lower_char_def

lemma tokenize_apple: "tokenize (asc ''apple'') = [asc ''apple'']"
  by (simp add: tokenize_def char_defs)

lemma init_env_vanished:
  "init env_vanished ''/r'' =
     Returns \<lparr>root_dir = ''/r'', lock = False,
       docs = [\<lparr>doc_id = 0, doc_path = ''/r/a.txt'', doc_title = ''a.txt'', doc_text = asc ''apple'',
                doc_mtime = 1, doc_len = 1\<rparr>],
       df = [(asc ''apple'', 2)], tf = [[(asc ''apple'', 1)]], avgdl = 1,
       idf = [(asc ''apple'', ln (4 / 5))], last_build = 0\<rparr>"
  by (simp add: init_def fresh_def reindex_def reset_def scan_def statistics_def doc_count_def
      env_vanished_def txt_file_def walk_docs_def enumerate_eq_zip index_file_def Let_def
      file_to_text_def read_text_def basename_def tokenize_apple term_freqs_def count_doc_def
      bump_def get0_def bm25_idf_def)

lemma init_env_apple:
  "init env_apple ''/r'' =
     Returns \<lparr>root_dir = ''/r'', lock = False,
       docs = [\<lparr>doc_id = 0, doc_path = ''/r/a.txt'', doc_title = ''a.txt'', doc_text = asc ''apple'',
                doc_mtime = 1, doc_len = 1\<rparr>],
       df = [(asc ''apple'', 1)], tf = [[(asc ''apple'', 1)]], avgdl = 1,
       idf = [(asc ''apple'', ln (4 / 3))], last_build = 0\<rparr>"
  by (simp add: init_def fresh_def reindex_def reset_def scan_def statistics_def doc_count_def
      env_apple_def txt_file_def walk_docs_def enumerate_eq_zip index_file_def Let_def
      file_to_text_def read_text_def basename_def tokenize_apple term_freqs_def count_doc_def
      bump_def get0_def bm25_idf_def)

lemma maybe_reindex_env_apple:
  assumes "init env_apple ''/r'' = Returns idx"
  shows "maybe_reindex env_apple idx = Returns idx"
proof -
  have "idx = \<lparr>root_dir = ''/r'', lock = False,
       docs = [\<lparr>doc_id = 0, doc_path = ''/r/a.txt'', doc_title = ''a.txt'', doc_text = asc ''apple'',
                doc_mtime = 1, doc_len = 1\<rparr>],
       df = [(asc ''apple'', 1)], tf = [[(asc ''apple'', 1)]], avgdl = 1,
       idf = [(asc ''apple'', ln (4 / 3))], last_build = 0\<rparr>"
    using assms by (simp add: init_env_apple)
  then show ?thesis
    by (simp add: maybe_reindex_def Let_def env_apple_def walk_docs_def txt_file_def)
qed


subsection \<open>Evaluation on concrete texts\<close>

lemma find_sub_skip:
  assumes "t \<noteq> []" "hd t \<noteq> c"
  shows "find_sub t (c # s) = map_option Suc (find_sub t s)"
proof -
  obtain x xs where t: "t = x # xs" using assms(1) by (cases t) auto
  have "take (length t) (c # s) \<noteq> t" using assms(2) by (simp add: t)
  then show ?thesis by simp
qed

lemma find_sub_pairs:
  assumes "t \<noteq> []" "hd t \<noteq> a" "hd t \<noteq> b"
  shows "find_sub t (concat (replicate n [a, b]) @ s) = map_option (\<lambda>p. 2 * n + p) (find_sub t s)"
proof (induction n)
  case 0
  then show ?case by (simp add: option.map_ident)
next
  case (Suc n)
  have "find_sub t (a # b # (concat (replicate n [a, b]) @ s)) =
        map_option Suc (map_option Suc (find_sub t (concat (replicate n [a, b]) @ s)))"
    by (simp only: find_sub_skip[OF assms(1,2)] find_sub_skip[OF assms(1,3)])
  then show ?case by (simp add: Suc option.map_comp comp_def)
qed

lemma find_sub_replicate:
  assumes "t \<noteq> []" "hd t \<noteq> c"
  shows "find_sub t (replicate n c @ s) = map_option (\<lambda>p. n + p) (find_sub t s)"
proof (induction n)
  case 0
  then show ?case by (simp add: option.map_ident)
next
  case (Suc n)
  have "find_sub t (c # (replicate n c @ s)) =
        map_option Suc (find_sub t (replicate n c @ s))"
    by (rule find_sub_skip[OF assms])
  then show ?case by (simp add: Suc option.map_comp comp_def)
qed

lemma find_sub_self: "t \<noteq> [] \<Longrightarrow> find_sub t t = Some 0"
  by (cases t) simp_all

lemma lower_dotted:
  "str_lower latin_runtime (replicate n 304 @ s) =
     concat (replicate n [105, 775]) @ str_lower latin_runtime s"
  by (induction n) (simp_all add: latin_runtime_def full_lower_def)

lemma apple_facts:
  "asc ''apple'' \<noteq> []" "hd (asc ''apple'') = 97" "length (asc ''apple'') = 5"
  "is_ascii (asc ''apple'')" "ascii_lower (asc ''apple'') = asc ''apple''"
  by (simp_all add: asc_def is_ascii_def ascii_lower_def lower_char_def)

lemma first_hit_dotted_apple: "first_hit_span latin_runtime dotted_apple [asc ''apple''] = 200"
proof -
  have "str_lower latin_runtime dotted_apple = concat (replicate 100 [105, 775]) @ asc ''apple''"
    unfolding dotted_apple_def lower_dotted
    by (simp add: latin_runtime_lower_ascii apple_facts)
  moreover have "find_sub (asc ''apple'') (concat (replicate 100 [105, 775]) @ asc ''apple'') =
      Some 200"
    using find_sub_pairs[of "asc ''apple''" 105 775 100 "asc ''apple''"]
    by (simp add: apple_facts find_sub_self)
  ultimately show ?thesis by (simp add: first_hit_span_def List.map_filter_simps)
qed

lemma highlight_Nil: "is_token t \<Longrightarrow> highlight latin_runtime [t] [] = []"
  by (simp add: highlight_def highlight_order_def latin_runtime_def mark_term_Nil is_token_def)

section \<open>The claims\<close>

text \<open>
  C1. The score of a document is the BM25 sum over the query terms present in its
  term-frequency table, is not negative, and is 0 when no query term occurs in it.
  The sum is \<open>score_default_built\<close> and the value 0 is \<open>score_default_nomatch\<close>; the
  score is not negative when no file was skipped (\<open>score_nonneg_when_no_skip\<close>). The
  code at the failing input: two files read as \<^verbatim>\<open>apple\<close> and the second vanishes
  before \<^verbatim>\<open>os.path.getmtime\<close>; the document frequency 2 exceeds the document count 1,
  the weight of \<^verbatim>\<open>apple\<close> is \<open>ln (4/5)\<close>, and the score of the one document for the
  query \<^verbatim>\<open>apple\<close> is negative.
\<close>

theorem score_negative_after_skipped_file:
  "\<exists>idx s. init env_vanished ''/r'' = Returns idx \<and>
         score_default idx [asc ''apple''] 0 = Returns s \<and> s < 0"
  by (simp add: init_env_vanished score_default_def score_def py_nth_def idf_get_def)

text \<open>
  C2. The stored weight of a term is \<open>ln ((N - df + 0.5) / (df + 0.5) + 1)\<close>, is not
  negative, and decreases strictly in \<open>df\<close> for a fixed \<open>N\<close>. The formula is
  \<open>reindex_idf_value\<close> with \<^verbatim>\<open>N = len(self.docs) or 1\<close>, the monotonicity is
  \<open>bm25_idf_decreasing\<close>, and the weight is not negative when no file was skipped
  (\<open>reindex_idf_when_no_skip\<close>). The code at the failing input of C1: the index holds
  one document, \<^verbatim>\<open>df["apple"]\<close> is 2, and the stored weight is negative.
\<close>

theorem idf_negative_after_skipped_file:
  "\<exists>idx. init env_vanished ''/r'' = Returns idx \<and> length (docs idx) = 1 \<and>
         map_of (df idx) (asc ''apple'') = Some 2 \<and>
         map_of (idf idx) (asc ''apple'') = Some (bm25_idf 1 2) \<and> bm25_idf 1 2 < 0"
  by (simp add: init_env_vanished bm25_idf_def)

text \<open>
  C3. After a build, the document frequency of a term is the number of documents of
  the index whose term-frequency table holds it, also when files were skipped. The
  frequency counts every file that was read (\<open>reindex_df_get0\<close>), so it exceeds the
  number of documents by the skipped files that hold the term (\<open>reindex_df_excess\<close>)
  and is exact when no file was skipped (\<open>reindex_df_exact\<close>). The code at the failing
  input of C1: one document holds \<^verbatim>\<open>apple\<close> and \<^verbatim>\<open>df["apple"]\<close> is 2.
\<close>

theorem df_counts_skipped_file:
  "\<exists>idx. init env_vanished ''/r'' = Returns idx \<and> length (docs idx) = 1 \<and>
         docs_with idx (asc ''apple'') = 1 \<and> get0 (df idx) (asc ''apple'') = 2"
  by (simp add: init_env_vanished docs_with_def get0_def)

text \<open>
  C4. \<^verbatim>\<open>search\<close> returns the documents with a positive score, by descending score,
  at most \<^verbatim>\<open>limit\<close> of them. \<^verbatim>\<open>search\<close> takes \<^verbatim>\<open>self.lock\<close> and, inside the block,
  calls \<^verbatim>\<open>self.score\<close>, whose body is under \<^verbatim>\<open>with self.lock\<close> too; the lock is a
  \<^verbatim>\<open>threading.Lock\<close>, which does not admit a second acquisition, and nothing
  releases it. So a query with a token over an index with a document never returns
  (\<open>search_unfold\<close>). The code at the failing input: one file that reads as
  \<^verbatim>\<open>apple\<close>, and the query \<^verbatim>\<open>apple\<close> with limit 20.
\<close>

theorem search_blocks_on_own_lock:
  "\<exists>idx. init env_apple ''/r'' = Returns idx \<and> \<not> lock idx \<and> tokenize (asc ''apple'') = [asc ''apple''] \<and>
      search env_apple idx (asc ''apple'') 20 = Blocks"
proof -
  obtain idx where i: "init env_apple ''/r'' = Returns idx" and l: "\<not> lock idx"
    and d: "docs idx \<noteq> []"
    by (simp add: init_env_apple)
  have "search env_apple idx (asc ''apple'') 20 = Blocks"
    by (rule search_Blocks[OF maybe_reindex_env_apple[OF i]]) (simp_all add: tokenize_apple d)
  then show ?thesis using i l tokenize_apple by blast
qed

text \<open>
  C5. For every corpus and every limit, \<^verbatim>\<open>search\<close> applied to the empty query, to a
  query of white space only, or to any query without a token, returns the empty
  list of results (with the index, which \<^verbatim>\<open>maybe_reindex\<close> may have rebuilt). The
  call starts as every call from outside does, with the lock free.
\<close>

theorem search_empty_query:
  assumes "\<not> lock idx"
      and "query = [] \<or> (\<forall>c\<in>set query. is_space c) \<or> tokenize query = []"
  shows "\<exists>idx1. search e idx query limit = Returns (idx1, [])"
proof -
  have t: "tokenize query = []"
    using assms(2) is_space_not_alnum by (auto simp: tokenize_Nil_iff)
  obtain idx1 where "maybe_reindex e idx = Returns idx1"
    using maybe_reindex_Returns[OF assms(1)] by blast
  then show ?thesis using t by (simp add: search_unfold)
qed

text \<open>
  The theorem at the index built from one file, for the query of three blanks and for
  the empty query.
\<close>

theorem search_empty_query_witness:
  "\<exists>idx idx1. init env_apple ''/r'' = Returns idx \<and> \<not> lock idx \<and> tokenize (asc ''   '') = [] \<and>
      search env_apple idx (asc ''   '') 20 = Returns (idx1, []) \<and>
      search env_apple idx [] 20 = Returns (idx1, [])"
proof -
  obtain idx where i: "init env_apple ''/r'' = Returns idx" and l: "\<not> lock idx"
    by (simp add: init_env_apple)
  have s: "\<forall>c\<in>set (asc ''   ''). is_space c" by (simp add: is_space_def asc_def)
  have m: "maybe_reindex env_apple idx = Returns idx" by (rule maybe_reindex_env_apple[OF i])
  obtain a where a: "search env_apple idx (asc ''   '') 20 = Returns (a, [])"
    using search_empty_query[OF l, of "asc ''   ''" env_apple 20] s by blast
  obtain b where b: "search env_apple idx [] 20 = Returns (b, [])"
    using search_empty_query[OF l, of "[]" env_apple 20] by blast
  have "a = idx" "b = idx" using a b m by (simp_all add: search_unfold split: if_splits)
  moreover have "tokenize (asc ''   '') = []" using s is_space_not_alnum by (auto simp: tokenize_Nil_iff)
  ultimately show ?thesis using i l a b by blast
qed




text \<open>
  C7. The snippet window is placed at the earliest occurrence of a query term in the
  text, whatever the case of the letters, with a quarter of its width before the hit,
  and the ellipsis markers tell where text was cut. On a text of ASCII characters
  the code does so (\<open>snippet_window_ascii\<close>). In general it does not:
  \<^verbatim>\<open>first_hit_span\<close> looks the terms up in \<^verbatim>\<open>text.lower()\<close>, \<^verbatim>\<open>make_snippet\<close> takes the
  offset it returns as an offset of \<^verbatim>\<open>text\<close>, and lowering can lengthen a text. The
  code at the failing input: the text is one hundred times U+0130, the capital I with
  a dot, followed by \<^verbatim>\<open>apple\<close>; the term is \<^verbatim>\<open>apple\<close> and the width is 240, as
  \<^verbatim>\<open>search\<close> passes it. The term stands at offset 100 of the 105 characters. The
  lowered text has 205 characters, the hit is found there at offset 200, the window
  is cut from offset 140 to offset 105 and is empty, and the snippet is the ellipsis
  marker alone.
\<close>

theorem snippet_misses_hit_in_lengthened_text:
  "length dotted_apple = 105 \<and>
   find_sub (asc ''apple'') dotted_apple = Some 100 \<and>
   length (str_lower latin_runtime dotted_apple) = 205 \<and>
   first_hit_span latin_runtime dotted_apple [asc ''apple''] = 200 \<and>
   window_start latin_runtime dotted_apple [asc ''apple''] 240 = 140 \<and>
   window_end latin_runtime dotted_apple [asc ''apple''] 240 = 105 \<and>
   window latin_runtime dotted_apple [asc ''apple''] 240 = [] \<and>
   make_snippet latin_runtime dotted_apple [asc ''apple''] 240 = [ellipsis]"
proof -
  have len: "length dotted_apple = 105" by (simp add: dotted_apple_def apple_facts)
  have f: "find_sub (asc ''apple'') dotted_apple = Some 100"
    unfolding dotted_apple_def
    using find_sub_replicate[of "asc ''apple''" 304 100 "asc ''apple''"]
    by (simp add: apple_facts find_sub_self)
  have low: "length (str_lower latin_runtime dotted_apple) = 205"
    unfolding dotted_apple_def lower_dotted
    by (simp add: latin_runtime_lower_ascii apple_facts length_concat sum_list_replicate ascii_lower_def)
  note hit = first_hit_dotted_apple
  have ws: "window_start latin_runtime dotted_apple [asc ''apple''] 240 = 140"
    by (simp add: window_start_def hit)
  have we: "window_end latin_runtime dotted_apple [asc ''apple''] 240 = 105"
    by (simp add: window_end_def ws len)
  have w: "window latin_runtime dotted_apple [asc ''apple''] 240 = []"
    by (simp add: window_def ws we)
  have tok: "is_token (asc ''apple'')" by (simp add: is_token_def is_lower_alnum_def asc_def)
  have "make_snippet latin_runtime dotted_apple [asc ''apple''] 240 = [ellipsis]"
    unfolding make_snippet_window w
    by (simp add: lead_def trail_def ws we len html_escape_Nil highlight_Nil[OF tok])
  then show ?thesis using len f low hit ws we w by (intro conjI)
qed

text \<open>
  C8. The snippet is no longer than the window length plus two ellipsis markers,
  every query term that occurs in the window as a whole token is marked, and a longer
  term's highlight is never overwritten by the marker of a shorter term. As stated
  this fails. The window is escaped and tagged after it was cut, so the output is
  longer than the window: sixty ampersands give 300 characters for the width 240.
  And the pattern of the term \<^verbatim>\<open>mark\<close> matches inside the tags that an earlier pass has
  written: for the text \<^verbatim>\<open>marks\<close> and the terms \<^verbatim>\<open>marks\<close> and \<^verbatim>\<open>mark\<close> the first
  pass writes the highlight of \<^verbatim>\<open>marks\<close> and the second pass breaks its tags, so that
  the highlight is nowhere in the snippet.
\<close>

theorem snippet_breaks_bound_and_highlight:
  "is_token (asc ''marks'') \<and> is_token (asc ''mark'') \<and>
   window latin_runtime (asc ''marks'') [asc ''marks'', asc ''mark''] 5 = asc ''marks'' \<and>
   token_at latin_runtime (asc ''marks'')
     (window latin_runtime (asc ''marks'') [asc ''marks'', asc ''mark''] 5) 0 \<and>
   highlight_order latin_runtime [asc ''marks'', asc ''mark''] = [asc ''marks'', asc ''mark''] \<and>
   mark_term latin_runtime (asc ''marks'') (html_escape (asc ''marks'')) =
     asc ''<mark>marks</mark>'' \<and>
   make_snippet latin_runtime (asc ''marks'') [asc ''marks'', asc ''mark''] 5 =
     asc ''<<mark>mark</mark>>marks</<mark>mark</mark>>'' \<and>
   \<not> length (make_snippet latin_runtime (asc ''marks'') [asc ''marks'', asc ''mark''] 5) \<le> 5 + 2 \<and>
   find_sub (asc ''<mark>marks</mark>'')
     (make_snippet latin_runtime (asc ''marks'') [asc ''marks'', asc ''mark''] 5) = None \<and>
   \<not> length (make_snippet latin_runtime (replicate 60 38) [asc ''x''] 240) \<le> 240 + 2"
  by code_simp

text \<open>
  C8 as amended. On a runtime that keeps the conventions, for terms as \<^verbatim>\<open>tokenize\<close>
  yields them, none of which is \<^verbatim>\<open>mark\<close>: the window has at most \<open>width\<close> characters
  and the snippet is at least as long as the window; the terms are processed once
  each, longest first; and wherever a term occurs in the window as a whole token,
  whatever the case of its letters, the snippet has that occurrence, as the text
  spells it, between \<^verbatim>\<open><mark>\<close> and \<^verbatim>\<open></mark>\<close> at its place: before the opening tag
  stands what the escaping and the passes make of the window up to the occurrence,
  and after the closing tag what they make of the rest of the window.
\<close>

theorem snippet_highlights:
  assumes "conventions U" and "\<forall>t\<in>set terms. is_token t" and "asc ''mark'' \<notin> set terms"
  shows "length (window U text terms width) \<le> width \<and>
         length (window U text terms width) \<le> length (make_snippet U text terms width) \<and>
         set (highlight_order U terms) = set terms \<and> distinct (highlight_order U terms) \<and>
         sorted_wrt (\<lambda>a b. length b \<le> length a) (highlight_order U terms) \<and>
         (\<forall>t\<in>set terms. \<forall>p. token_at U t (window U text terms width) p \<longrightarrow>
            make_snippet U text terms width =
              lead U text terms width @
              highlight U terms (html_escape (take p (window U text terms width))) @
              open_tag @ take (length t) (drop p (window U text terms width)) @ close_tag @
              highlight U terms (html_escape (drop (p + length t) (window U text terms width))) @
              trail U text terms width)"
proof -
  define W where "W = window U text terms width"
  have ms: "make_snippet U text terms width =
      lead U text terms width @ highlight U terms (html_escape W) @ trail U text terms width"
    unfolding W_def by (rule make_snippet_window)
  have a: "length W \<le> width" unfolding W_def by (rule length_window)
  have "length W \<le> length (html_escape W)" by (rule length_html_escape)
  also have "\<dots> \<le> length (highlight U terms (html_escape W))" by (rule length_highlight)
  also have "\<dots> \<le> length (make_snippet U text terms width)" by (simp add: ms)
  finally have b: "length W \<le> length (make_snippet U text terms width)" .
  have c: "make_snippet U text terms width =
              lead U text terms width @
              highlight U terms (html_escape (take p W)) @
              open_tag @ take (length t) (drop p W) @ close_tag @
              highlight U terms (html_escape (drop (p + length t) W)) @
              trail U text terms width"
    if tt: "t \<in> set terms" and ta: "token_at U t W p" for t p
    unfolding ms highlighted_token[OF assms tt ta] by simp
  show ?thesis
    using a b c highlight_order_set[OF assms(1)] highlight_order_distinct[OF assms(1)]
      highlight_order_longest_first
    unfolding W_def by blast
qed

text \<open>
  The theorem at a text in which \<^verbatim>\<open>hello\<close> occurs twice as a whole token, once with a
  capital letter, after a word that ends in U+00E9, the letter e with an acute accent.
  The term \<^verbatim>\<open>caf\<close> does not occur as a whole token, because U+00E9 is a word
  character, and is left as it is.
\<close>

theorem snippet_highlights_witness:
  "conventions latin_runtime \<and> is_token (asc ''caf'') \<and> is_token (asc ''hello'') \<and>
   asc ''mark'' \<notin> set [asc ''caf'', asc ''hello''] \<and>
   window latin_runtime accented_text [asc ''caf'', asc ''hello''] 240 = accented_text \<and>
   token_at latin_runtime (asc ''hello'')
     (window latin_runtime accented_text [asc ''caf'', asc ''hello''] 240) 5 \<and>
   token_at latin_runtime (asc ''hello'')
     (window latin_runtime accented_text [asc ''caf'', asc ''hello''] 240) 12 \<and>
   \<not> token_at latin_runtime (asc ''caf'')
     (window latin_runtime accented_text [asc ''caf'', asc ''hello''] 240) 0 \<and>
   length (window latin_runtime accented_text [asc ''caf'', asc ''hello''] 240) \<le> 240 \<and>
   make_snippet latin_runtime accented_text [asc ''caf'', asc ''hello''] 240 =
     asc ''caf'' @ [233] @ asc '' '' @ open_tag @ asc ''Hello'' @ close_tag @
     asc '', <mark>hello</mark>'' \<and>
   make_snippet latin_runtime accented_text [asc ''caf'', asc ''hello''] 240 =
     asc ''caf'' @ [233] @ asc '' <mark>Hello</mark>, '' @ open_tag @ asc ''hello'' @ close_tag"
proof -
  define T where "T = accented_text"
  define ts where "ts = [asc ''caf'', asc ''hello'']"
  define W where "W = window latin_runtime T ts 240"
  have tk: "is_token (asc ''caf'')" "is_token (asc ''hello'')" by code_simp+
  have h1: "\<forall>t\<in>set ts. is_token t" using tk by (simp add: ts_def)
  have h2: "asc ''mark'' \<notin> set ts" unfolding ts_def by code_simp
  have w: "W = accented_text" unfolding W_def T_def ts_def by code_simp
  have t5: "token_at latin_runtime (asc ''hello'') W 5" unfolding W_def T_def ts_def by code_simp
  have t12: "token_at latin_runtime (asc ''hello'') W 12" unfolding W_def T_def ts_def by code_simp
  have n0: "\<not> token_at latin_runtime (asc ''caf'') W 0" unfolding W_def T_def ts_def by code_simp
  note th = snippet_highlights[OF latin_runtime_conventions h1 h2, of T 240]
  have len: "length W \<le> 240" unfolding W_def using th by (rule conjunct1)
  have all: "\<forall>t\<in>set ts. \<forall>p. token_at latin_runtime t W p \<longrightarrow>
      make_snippet latin_runtime T ts 240 =
        lead latin_runtime T ts 240 @ highlight latin_runtime ts (html_escape (take p W)) @
        open_tag @ take (length t) (drop p W) @ close_tag @
        highlight latin_runtime ts (html_escape (drop (p + length t) W)) @
        trail latin_runtime T ts 240"
    unfolding W_def using th by blast
  have hs: "asc ''hello'' \<in> set ts" by (simp add: ts_def)
  have m5: "make_snippet latin_runtime T ts 240 =
        lead latin_runtime T ts 240 @ highlight latin_runtime ts (html_escape (take 5 W)) @
        open_tag @ take (length (asc ''hello'')) (drop 5 W) @ close_tag @
        highlight latin_runtime ts (html_escape (drop (5 + length (asc ''hello'')) W)) @
        trail latin_runtime T ts 240"
    by (rule all[THEN bspec, OF hs, THEN spec, THEN mp, OF t5])
  have m12: "make_snippet latin_runtime T ts 240 =
        lead latin_runtime T ts 240 @ highlight latin_runtime ts (html_escape (take 12 W)) @
        open_tag @ take (length (asc ''hello'')) (drop 12 W) @ close_tag @
        highlight latin_runtime ts (html_escape (drop (12 + length (asc ''hello'')) W)) @
        trail latin_runtime T ts 240"
    by (rule all[THEN bspec, OF hs, THEN spec, THEN mp, OF t12])
  have e5: "lead latin_runtime T ts 240 @
        highlight latin_runtime ts (html_escape (take 5 accented_text)) = asc ''caf'' @ [233] @ asc '' ''"
    "take (length (asc ''hello'')) (drop 5 accented_text) = asc ''Hello''"
    "highlight latin_runtime ts (html_escape (drop (5 + length (asc ''hello'')) accented_text)) @
        trail latin_runtime T ts 240 = asc '', <mark>hello</mark>''"
    unfolding T_def ts_def by code_simp+
  have e12: "lead latin_runtime T ts 240 @
        highlight latin_runtime ts (html_escape (take 12 accented_text)) =
          asc ''caf'' @ [233] @ asc '' <mark>Hello</mark>, ''"
    "take (length (asc ''hello'')) (drop 12 accented_text) = asc ''hello''"
    "highlight latin_runtime ts (html_escape (drop (12 + length (asc ''hello'')) accented_text)) @
        trail latin_runtime T ts 240 = []"
    unfolding T_def ts_def by code_simp+
  have "make_snippet latin_runtime T ts 240 =
        (lead latin_runtime T ts 240 @
         highlight latin_runtime ts (html_escape (take 5 accented_text))) @
        open_tag @ take (length (asc ''hello'')) (drop 5 accented_text) @ close_tag @
        (highlight latin_runtime ts (html_escape (drop (5 + length (asc ''hello'')) accented_text)) @
         trail latin_runtime T ts 240)"
    using m5 unfolding w by (simp only: append_assoc)
  then have r5: "make_snippet latin_runtime T ts 240 =
     asc ''caf'' @ [233] @ asc '' '' @ open_tag @ asc ''Hello'' @ close_tag @
     asc '', <mark>hello</mark>''"
    unfolding e5 by (simp only: append_assoc)
  have "make_snippet latin_runtime T ts 240 =
        (lead latin_runtime T ts 240 @
         highlight latin_runtime ts (html_escape (take 12 accented_text))) @
        open_tag @ take (length (asc ''hello'')) (drop 12 accented_text) @ close_tag @
        (highlight latin_runtime ts (html_escape (drop (12 + length (asc ''hello'')) accented_text)) @
         trail latin_runtime T ts 240)"
    using m12 unfolding w by (simp only: append_assoc)
  then have r12: "make_snippet latin_runtime T ts 240 =
     asc ''caf'' @ [233] @ asc '' <mark>Hello</mark>, '' @ open_tag @ asc ''hello'' @ close_tag"
    unfolding e12 by (simp only: append_assoc append_Nil2)
  show ?thesis
    using latin_runtime_conventions tk h2 w t5 t12 n0 len r5 r12 unfolding W_def T_def ts_def
    by (intro conjI)
qed

text \<open>
  C9. A rebuild builds a new snapshot aside and publishes it atomically, queries in
  flight keep their view, and no operation blocks for ever. The interleaving of
  threads is outside this development; what it decides is the last part. The code at
  the failing input: after a build and a rebuild over one file that reads as
  \<^verbatim>\<open>apple\<close>, the query \<^verbatim>\<open>apple\<close> with the default limit waits for ever for the lock
  that \<^verbatim>\<open>search\<close> itself holds.
\<close>

theorem query_after_rebuild_blocks:
  "\<exists>idx idx'. init env_apple ''/r'' = Returns idx \<and> reindex env_apple idx = Returns idx' \<and>
      search_default env_apple idx' (asc ''apple'') = Blocks"
proof -
  obtain idx where i: "init env_apple ''/r'' = Returns idx" and l: "\<not> lock idx"
    by (simp add: init_env_apple)
  have f: "\<not> lock (fresh ''/r'')" by (simp add: fresh_def)
  have "root_dir idx = root_dir (fresh ''/r'')" using i by (auto simp: init_env_apple fresh_def)
  then have same: "reindex env_apple idx = reindex env_apple (fresh ''/r'')"
    by (rule reindex_replaces[OF l f])
  then have r: "reindex env_apple idx = Returns idx" using i by (simp add: init_def)
  have "search env_apple idx (asc ''apple'') 20 = Blocks"
    by (rule search_Blocks[OF maybe_reindex_env_apple[OF i]])
       (use i in \<open>auto simp: tokenize_apple init_env_apple\<close>)
  then show ?thesis using i r by (auto simp: search_default_def)
qed

text \<open>
  C10. In \<^verbatim>\<open>score\<close>, the division by the average document length never divides by
  zero. In every index a build returns, a document whose term-frequency table holds
  some term has at least one token, so the sum of the token counts and \<^verbatim>\<open>avgdl\<close> are
  positive; and \<^verbatim>\<open>score\<close> with its default constants never raises
  \<^verbatim>\<open>ZeroDivisionError\<close>, whatever the query and the document index.
\<close>

theorem score_never_divides_by_zero:
  assumes "reindex e idx = Returns idx'"
  shows "(\<forall>i d freq t n.
            py_nth (docs idx') i = Some d \<and> py_nth (tf idx') i = Some freq \<and> map_of freq t = Some n \<longrightarrow>
            1 \<le> doc_len d \<and> 0 < sum_list (map doc_len (docs idx')) \<and> 0 < avgdl idx') \<and>
         (\<forall>q i. score_default idx' q i \<noteq> Raises ZeroDivisionError)"
proof (intro conjI allI impI)
  fix i d freq t n
  assume h: "py_nth (docs idx') i = Some d \<and> py_nth (tf idx') i = Some freq \<and> map_of freq t = Some n"
  define k where "k = nat (if i < 0 then int (length (docs idx')) + i else i)"
  have len: "length (tf idx') = length (docs idx')" by (rule reindex_length_tf[OF assms])
  have k: "k < length (docs idx')" "d = docs idx' ! k" "freq = tf idx' ! k"
    using h len by (auto simp: py_nth_Some Let_def k_def)
  have m: "map_of (tf idx' ! k) t = Some n" using h k by simp
  show "1 \<le> doc_len d" using reindex_match_len[OF assms k(1) m] k(2) by simp
  show "0 < sum_list (map doc_len (docs idx'))" using reindex_avgdl_pos[OF assms k(1) m] by simp
  show "0 < avgdl idx'" using reindex_avgdl_pos[OF assms k(1) m] by simp
next
  fix q i
  have len: "length (tf idx') = length (docs idx')" by (rule reindex_length_tf[OF assms])
  show "score_default idx' q i \<noteq> Raises ZeroDivisionError"
  proof (cases "py_nth (docs idx') i")
    case None
    then show ?thesis by (simp add: score_default_def score_def)
  next
    case (Some d)
    define k where "k = nat (if i < 0 then int (length (docs idx')) + i else i)"
    have k: "k < length (docs idx')" "d = docs idx' ! k"
      using Some by (auto simp: py_nth_Some Let_def k_def)
    have f: "py_nth (tf idx') i = Some (tf idx' ! k)"
      using Some len by (auto simp: py_nth_Some Let_def k_def)
    have "score_terms idx' (docs idx' ! k) (tf idx' ! k) 1.5 0.75 q 0 \<noteq> Raises ZeroDivisionError"
      using score_terms_built[OF assms k(1), of "1.5" "0.75" q] by simp
    then show ?thesis using Some f k by (simp add: score_default_def score_def)
  qed
qed

text \<open>
  The theorem at the index built from two files that read as \<^verbatim>\<open>apple\<close>, for the
  document at position 0.
\<close>

theorem score_never_divides_by_zero_witness:
  "\<exists>idx'. init env_vanished ''/r'' = Returns idx' \<and>
      py_nth (docs idx') 0 = Some (docs idx' ! 0) \<and> py_nth (tf idx') 0 = Some (tf idx' ! 0) \<and>
      map_of (tf idx' ! 0) (asc ''apple'') = Some 1 \<and>
      1 \<le> doc_len (docs idx' ! 0) \<and> 0 < avgdl idx' \<and>
      score_default idx' [asc ''apple''] 0 \<noteq> Raises ZeroDivisionError"
proof -
  obtain idx' where r: "reindex env_vanished (fresh ''/r'') = Returns idx'"
    and v: "docs idx' \<noteq> []" "tf idx' = [[(asc ''apple'', 1)]]"
    using init_env_vanished by (auto simp: init_def)
  have p: "py_nth (docs idx') 0 = Some (docs idx' ! 0)" "py_nth (tf idx') 0 = Some (tf idx' ! 0)"
    "map_of (tf idx' ! 0) (asc ''apple'') = Some 1"
    using v by (simp_all add: py_nth_def)
  note t = score_never_divides_by_zero[OF r]
  have "py_nth (docs idx') 0 = Some (docs idx' ! 0) \<and> py_nth (tf idx') 0 = Some (tf idx' ! 0) \<and>
        map_of (tf idx' ! 0) (asc ''apple'') = Some 1 \<longrightarrow>
        1 \<le> doc_len (docs idx' ! 0) \<and> 0 < sum_list (map doc_len (docs idx')) \<and> 0 < avgdl idx'"
    using t by blast
  then have a: "1 \<le> doc_len (docs idx' ! 0) \<and> 0 < avgdl idx'" using p by blast
  have b: "score_default idx' [asc ''apple''] 0 \<noteq> Raises ZeroDivisionError" using t by blast
  show ?thesis using r p a b unfolding init_def by blast
qed

end
